theory Spec2Isabelle
  imports Main "HOL-Library.AList"
begin

section \<open>Identity reconciliation: the contact service\<close>

text \<open>
  A shallow embedding of \<^verbatim>\<open>src/services/contact.service.ts\<close>. The service reads and
  writes one table of contacts through a database client; the table is made explicit as a
  value of type \<open>Store\<close> that every operation takes and, when it writes, returns.
\<close>

subsection \<open>Data\<close>

text \<open>The string union \<^verbatim>\<open>"primary" | "secondary"\<close>.\<close>

datatype LinkPrecedence = Primary | Secondary

text \<open>
  The type \<^verbatim>\<open>Contact\<close>. Ids are integers, dates are milliseconds since the epoch
  (what \<^verbatim>\<open>getTime()\<close> returns), \<^verbatim>\<open>string | null\<close> is \<open>string option\<close>. The field
  \<^verbatim>\<open>id\<close> is called \<open>id_c\<close>, since \<open>id\<close> is the identity function of HOL.
\<close>

record Contact =
  id_c :: int
  phoneNumber :: "string option"
  email :: "string option"
  linkedId :: "int option"
  linkPrecedence :: LinkPrecedence
  createdAt :: int
  updatedAt :: int
  deletedAt :: "int option"

text \<open>The body of \<^verbatim>\<open>IdentifyResponse.contact\<close>, with the field names of the source.\<close>

record IdentifyResponse =
  primaryContatctId :: int
  emails :: "string list"
  phoneNumbers :: "string list"
  secondaryContactIds :: "int list"

text \<open>
  The table: its rows in table order, the next value of the auto-increment sequence of
  \<^verbatim>\<open>id\<close>, and the clock the database stamps new rows with.
\<close>

record Store =
  rows :: "Contact list"
  nextId :: int
  clock :: int

text \<open>
  JavaScript truthiness of a \<^verbatim>\<open>string | null\<close>: \<^verbatim>\<open>null\<close> and the empty string are
  falsy, every other string is truthy. This is what \<^verbatim>\<open>if (email)\<close> and
  \<^verbatim>\<open>filter(Boolean)\<close> test.
\<close>

fun truthy :: "string option \<Rightarrow> bool" where
  "truthy None = False"
| "truthy (Some v) = (v \<noteq> [])"

subsection \<open>The contact store\<close>

text \<open>
  The database client \<^verbatim>\<open>prisma.contact\<close> and the schema of the table are not part of
  the sources. The operations the service calls are modelled from the contract that
  section 6 of the specification gives for the store: lookup by id, lookup by exact
  email or phone number with OR semantics, lookup by parent, lookup of a group, insertion
  (which assigns the id and the timestamps), update of one record's link, and bulk
  repointing of children.
\<close>

text \<open>
  Modelled from the spec: \<^verbatim>\<open>findById(id)\<close>, the client's
  \<^verbatim>\<open>findUnique({ where: { id } })\<close>; the first row with the id, or nothing.
\<close>

definition findUnique :: "Store \<Rightarrow> int \<Rightarrow> Contact option" where
  "findUnique s i = find (\<lambda>r. id_c r = i) (rows s)"

text \<open>
  Modelled from the spec: ``ordering results by creation time ascending'', the client's
  \<^verbatim>\<open>orderBy: { createdAt: "asc" }\<close>. Rows with the same \<^verbatim>\<open>createdAt\<close> keep their
  table order.
\<close>

definition orderByCreatedAt :: "Contact list \<Rightarrow> Contact list" where
  "orderByCreatedAt cs = sort_key createdAt cs"

text \<open>
  Modelled from the spec: \<^verbatim>\<open>findMatching(email?, phone?)\<close>, the client's
  \<^verbatim>\<open>findMany({ where: { OR: conditions }, orderBy: { createdAt: "asc" } })\<close>. The service
  puts an equality on \<^verbatim>\<open>email\<close> into \<open>conditions\<close> only when the given email is truthy
  (\<^verbatim>\<open>if (email) conditions.push({ email })\<close>), and likewise for the phone number. With no
  condition at all the OR matches no row.
\<close>

definition matches :: "string option \<Rightarrow> string option \<Rightarrow> Contact \<Rightarrow> bool" where
  "matches em ph r \<longleftrightarrow> (truthy em \<and> email r = em) \<or> (truthy ph \<and> phoneNumber r = ph)"

definition findMatching :: "Store \<Rightarrow> string option \<Rightarrow> string option \<Rightarrow> Contact list" where
  "findMatching s em ph = orderByCreatedAt (filter (matches em ph) (rows s))"

text \<open>
  Modelled from the spec: \<^verbatim>\<open>findByParent(parentId)\<close>, the client's
  \<^verbatim>\<open>findMany({ where: { linkedId }, orderBy: { createdAt: "asc" } })\<close>.
\<close>

definition findByParent :: "Store \<Rightarrow> int \<Rightarrow> Contact list" where
  "findByParent s pid = orderByCreatedAt (filter (\<lambda>r. linkedId r = Some pid) (rows s))"

text \<open>
  Modelled from the spec: \<^verbatim>\<open>findGroup(primaryId)\<close>, the client's
  \<^verbatim>\<open>findMany({ where: { OR: [{ id }, { linkedId: id }] } })\<close>.
\<close>

definition findGroup :: "Store \<Rightarrow> int \<Rightarrow> Contact list" where
  "findGroup s pid = filter (\<lambda>r. id_c r = pid \<or> linkedId r = Some pid) (rows s)"

text \<open>
  Modelled from the spec: \<^verbatim>\<open>create(email?, phone?, linkedId?, precedence)\<close>, the client's
  \<^verbatim>\<open>create({ data })\<close>. The new row takes the next id and the current time; a
  \<^verbatim>\<open>linkedId\<close> that is not given is stored as null.
\<close>

definition create ::
  "Store \<Rightarrow> string option \<Rightarrow> string option \<Rightarrow> int option \<Rightarrow> LinkPrecedence \<Rightarrow> Store \<times> Contact"
where
  "create s em ph lid prec =
     (let c = \<lparr> id_c = nextId s, phoneNumber = ph, email = em, linkedId = lid,
                linkPrecedence = prec, createdAt = clock s, updatedAt = clock s,
                deletedAt = None \<rparr>
      in (s\<lparr> rows := rows s @ [c], nextId := nextId s + 1 \<rparr>, c))"

text \<open>
  Modelled from the spec: \<^verbatim>\<open>updateLink(id, linkedId, precedence)\<close>, the client's
  \<^verbatim>\<open>update({ where: { id }, data: { linkedId, linkPrecedence } })\<close>. It writes the two
  fields of the row with the id, and fails (here \<open>None\<close>) when no row has the id.
\<close>

definition updateLink :: "Store \<Rightarrow> int \<Rightarrow> int \<Rightarrow> LinkPrecedence \<Rightarrow> Store option" where
  "updateLink s i lid prec =
     (if list_ex (\<lambda>r. id_c r = i) (rows s)
      then Some (s\<lparr> rows := map (\<lambda>r. if id_c r = i
                                       then r\<lparr> linkedId := Some lid, linkPrecedence := prec \<rparr>
                                       else r) (rows s) \<rparr>)
      else None)"

text \<open>
  Modelled from the spec: \<^verbatim>\<open>repointChildren(oldParentId, newParentId)\<close>, the client's
  \<^verbatim>\<open>updateMany({ where: { linkedId: old }, data: { linkedId: new } })\<close>.
\<close>

definition repointChildren :: "Store \<Rightarrow> int \<Rightarrow> int \<Rightarrow> Store" where
  "repointChildren s old new =
     s\<lparr> rows := map (\<lambda>r. if linkedId r = Some old then r\<lparr> linkedId := Some new \<rparr> else r)
                    (rows s) \<rparr>"

subsection \<open>Root resolution\<close>

text \<open>
  \<^verbatim>\<open>findPrimaryContact\<close>: the \<^verbatim>\<open>while\<close> loop that follows \<^verbatim>\<open>linkedId\<close> upward and
  breaks when the parent is missing. On a cyclic chain the loop never ends; that is the
  value \<open>None\<close>.
\<close>

partial_function (option) findPrimaryContact :: "Store \<Rightarrow> Contact \<Rightarrow> Contact option" where
  "findPrimaryContact s current =
     (case linkedId current of
        None \<Rightarrow> Some current
      | Some l \<Rightarrow>
          (case findUnique s l of
             None \<Rightarrow> Some current
           | Some parent \<Rightarrow> findPrimaryContact s parent))"

declare findPrimaryContact.simps [code]

subsection \<open>The consolidated response\<close>

text \<open>\<^verbatim>\<open>if (v) xs.push(v)\<close> on the empty list.\<close>

fun pushTruthy :: "string option \<Rightarrow> string list" where
  "pushTruthy None = []"
| "pushTruthy (Some v) = (if v \<noteq> [] then [v] else [])"

text \<open>\<^verbatim>\<open>if (v && !xs.includes(v)) xs.push(v)\<close>.\<close>

fun pushNew :: "string list \<Rightarrow> string option \<Rightarrow> string list" where
  "pushNew xs None = xs"
| "pushNew xs (Some v) = (if v \<noteq> [] \<and> v \<notin> set xs then xs @ [v] else xs)"

text \<open>The body of the \<^verbatim>\<open>for (const sc of secondaryContacts)\<close> loop of \<^verbatim>\<open>buildResponse\<close>.\<close>

fun collect :: "Contact list \<Rightarrow> IdentifyResponse \<Rightarrow> IdentifyResponse" where
  "collect [] acc = acc"
| "collect (sc # scs) acc =
     collect scs
       (acc\<lparr> secondaryContactIds := secondaryContactIds acc @ [id_c sc],
              emails := pushNew (emails acc) (email sc),
              phoneNumbers := pushNew (phoneNumbers acc) (phoneNumber sc) \<rparr>)"

definition buildResponse :: "Store \<Rightarrow> Contact \<Rightarrow> IdentifyResponse" where
  "buildResponse s primaryContact =
     (let secondaryContacts = findByParent s (id_c primaryContact)
      in collect secondaryContacts
           \<lparr> primaryContatctId = id_c primaryContact,
             emails = pushTruthy (email primaryContact),
             phoneNumbers = pushTruthy (phoneNumber primaryContact),
             secondaryContactIds = [] \<rparr>)"

subsection \<open>Reconciliation\<close>

text \<open>
  The loop that resolves every matched contact and records its root in \<^verbatim>\<open>primarySet\<close>,
  a \<^verbatim>\<open>Map\<close> from id to contact. A JavaScript \<^verbatim>\<open>Map\<close> iterates in the order in which its
  keys were first set, and setting a key again replaces the value in place: that is
  \<open>AList.update\<close> on an association list.
\<close>

fun resolveAll ::
  "Store \<Rightarrow> Contact list \<Rightarrow> (int \<times> Contact) list \<Rightarrow> (int \<times> Contact) list option"
where
  "resolveAll s [] primarySet = Some primarySet"
| "resolveAll s (c # cs) primarySet =
     (case findPrimaryContact s c of
        None \<Rightarrow> None
      | Some primary \<Rightarrow> resolveAll s cs (AList.update (id_c primary) primary primarySet))"

text \<open>
  \<^verbatim>\<open>[...primarySet.values()].sort((a, b) => a.createdAt.getTime() - b.createdAt.getTime())\<close>:
  the sort of JavaScript is stable and the comparator looks at \<^verbatim>\<open>createdAt\<close> only.
\<close>

definition sortPrimaries :: "(int \<times> Contact) list \<Rightarrow> Contact list" where
  "sortPrimaries primarySet = sort_key createdAt (map snd primarySet)"

definition resolvePrimaries ::
  "Store \<Rightarrow> string option \<Rightarrow> string option \<Rightarrow> Contact list option"
where
  "resolvePrimaries s em ph =
     map_option sortPrimaries (resolveAll s (findMatching s em ph) [])"

text \<open>
  The merge loop \<^verbatim>\<open>for (let i = 1; i < primaries.length; i++)\<close>, over the primaries
  after the first: demote the primary, then repoint its children.
\<close>

fun mergeInto :: "Store \<Rightarrow> Contact \<Rightarrow> Contact list \<Rightarrow> Store option" where
  "mergeInto s canonicalPrimary [] = Some s"
| "mergeInto s canonicalPrimary (otherPrimary # rest) =
     (case updateLink s (id_c otherPrimary) (id_c canonicalPrimary) Secondary of
        None \<Rightarrow> None
      | Some s1 \<Rightarrow>
          mergeInto (repointChildren s1 (id_c otherPrimary) (id_c canonicalPrimary))
            canonicalPrimary rest)"

text \<open>
  The new-information check: the emails and phone numbers of the reloaded group, with
  the falsy ones filtered out, and the two flags \<^verbatim>\<open>hasNewEmail\<close> and \<^verbatim>\<open>hasNewPhone\<close>.
\<close>

definition existingEmails :: "Contact list \<Rightarrow> string option list" where
  "existingEmails allLinked = filter truthy (map email allLinked)"

definition existingPhones :: "Contact list \<Rightarrow> string option list" where
  "existingPhones allLinked = filter truthy (map phoneNumber allLinked)"

definition hasNewEmail :: "Contact list \<Rightarrow> string option \<Rightarrow> bool" where
  "hasNewEmail allLinked em \<longleftrightarrow> em \<noteq> None \<and> em \<notin> set (existingEmails allLinked)"

definition hasNewPhone :: "Contact list \<Rightarrow> string option \<Rightarrow> bool" where
  "hasNewPhone allLinked ph \<longleftrightarrow> ph \<noteq> None \<and> ph \<notin> set (existingPhones allLinked)"

text \<open>
  \<^verbatim>\<open>identifyContact\<close>. The result is \<open>None\<close> when the call returns no response: root
  resolution does not end, \<^verbatim>\<open>primaries[0]\<close> is undefined, or the store rejects an
  update.
\<close>

definition identifyContact ::
  "Store \<Rightarrow> string option \<Rightarrow> string option \<Rightarrow> (Store \<times> IdentifyResponse) option"
where
  "identifyContact s em ph =
     (let matchingContacts = findMatching s em ph in
      if length matchingContacts = 0
      then (case create s em ph None Primary of
              (s1, newContact) \<Rightarrow> Some (s1, buildResponse s1 newContact))
      else
        (case resolveAll s matchingContacts [] of
           None \<Rightarrow> None
         | Some primarySet \<Rightarrow>
             (case sortPrimaries primarySet of
                [] \<Rightarrow> None
              | canonicalPrimary # others \<Rightarrow>
                  (case (if length (canonicalPrimary # others) > 1
                         then mergeInto s canonicalPrimary others
                         else Some s) of
                     None \<Rightarrow> None
                   | Some s2 \<Rightarrow>
                       (let allLinked = findGroup s2 (id_c canonicalPrimary);
                            s3 = (if hasNewEmail allLinked em \<or> hasNewPhone allLinked ph
                                  then fst (create s2 em ph (Some (id_c canonicalPrimary))
                                              Secondary)
                                  else s2)
                        in Some (s3, buildResponse s3 canonicalPrimary))))))"

section \<open>Properties of the reconciliation\<close>

subsection \<open>Well-formed stores and the group invariant\<close>

text \<open>
  What the database guarantees of the table: \<^verbatim>\<open>id\<close> is a key, the sequence is ahead of
  every id in use (also of every id a \<^verbatim>\<open>linkedId\<close> refers to), and no row is stamped
  later than the clock.
\<close>

definition wf_store :: "Store \<Rightarrow> bool" where
  "wf_store s \<longleftrightarrow>
     distinct (map id_c (rows s)) \<and>
     (\<forall>r \<in> set (rows s).
        id_c r < nextId s \<and> createdAt r \<le> clock s \<and>
        (case linkedId r of None \<Rightarrow> True | Some l \<Rightarrow> l < nextId s))"

text \<open>
  A row is well linked in a table when it is either a primary without a parent, or a
  secondary whose \<^verbatim>\<open>linkedId\<close> is the id of a primary of the table that has no parent
  itself and was not created after the row.
\<close>

definition wellLinked :: "Contact list \<Rightarrow> Contact \<Rightarrow> bool" where
  "wellLinked rs r \<longleftrightarrow>
     (case linkedId r of
        None \<Rightarrow> linkPrecedence r = Primary
      | Some l \<Rightarrow>
          linkPrecedence r = Secondary \<and>
          (\<exists>p \<in> set rs. id_c p = l \<and> linkPrecedence p = Primary \<and>
                          linkedId p = None \<and> createdAt p \<le> createdAt r))"

text \<open>
  The group invariant: every row is well linked. The groups are then the stars around
  the primaries: one primary each, every other member a secondary pointing directly at
  it, and no member with an earlier \<^verbatim>\<open>createdAt\<close> than the primary.
\<close>

definition groupInvariant :: "Store \<Rightarrow> bool" where
  "groupInvariant s \<longleftrightarrow> (\<forall>r \<in> set (rows s). wellLinked (rows s) r)"

text \<open>
  The stores that arise from a store \<open>s0\<close>: by calls of \<open>identifyContact\<close> that return,
  and by time passing between the calls.
\<close>

definition atTime :: "Store \<Rightarrow> int \<Rightarrow> Store" where
  "atTime s t = s\<lparr> clock := t \<rparr>"

inductive reachable :: "Store \<Rightarrow> Store \<Rightarrow> bool" for s0 :: Store where
  start: "reachable s0 s0"
| call: "reachable s0 s \<Longrightarrow> identifyContact s em ph = Some (s', resp) \<Longrightarrow> reachable s0 s'"
| tick: "reachable s0 s \<Longrightarrow> clock s \<le> t \<Longrightarrow> reachable s0 (atTime s t)"

text \<open>
  The stricter reading of ``earliest'' in the specification: the primary comes first in
  the order by \<^verbatim>\<open>createdAt\<close> with ties broken by \<^verbatim>\<open>id\<close>.
\<close>

definition createdBefore :: "Contact \<Rightarrow> Contact \<Rightarrow> bool" where
  "createdBefore p r \<longleftrightarrow>
     createdAt p < createdAt r \<or> (createdAt p = createdAt r \<and> id_c p < id_c r)"

definition primaryFirstWithTies :: "Store \<Rightarrow> bool" where
  "primaryFirstWithTies s \<longleftrightarrow>
     (\<forall>r \<in> set (rows s). \<forall>p \<in> set (rows s).
        linkedId r = Some (id_c p) \<longrightarrow> createdBefore p r)"

text \<open>
  A root of the store: a contact without \<^verbatim>\<open>linkedId\<close>, or one whose \<^verbatim>\<open>linkedId\<close>
  refers to no row.
\<close>

definition isRoot :: "Store \<Rightarrow> Contact \<Rightarrow> bool" where
  "isRoot s c \<longleftrightarrow>
     (case linkedId c of
        None \<Rightarrow> True
      | Some l \<Rightarrow> (case findUnique s l of None \<Rightarrow> True | Some parent \<Rightarrow> False))"


subsection \<open>The effect of a call in closed form\<close>

text \<open>
  What the merge loop does to one row, given the id \<open>c\<close> of the canonical primary and
  the ids \<open>qs\<close> of the other primaries: a row among \<open>qs\<close> is demoted, a child of one of
  them is repointed, every other row stays.
\<close>

definition relink :: "int \<Rightarrow> int list \<Rightarrow> Contact \<Rightarrow> Contact" where
  "relink c qs r =
     (if id_c r \<in> set qs then r\<lparr> linkedId := Some c, linkPrecedence := Secondary \<rparr>
      else if (case linkedId r of None \<Rightarrow> False | Some l \<Rightarrow> l \<in> set qs)
           then r\<lparr> linkedId := Some c \<rparr>
           else r)"

definition merged :: "Store \<Rightarrow> Contact \<Rightarrow> Contact list \<Rightarrow> Store" where
  "merged s canon others = s\<lparr> rows := map (relink (id_c canon) (map id_c others)) (rows s) \<rparr>"

text \<open>The rows that the new-information step appends: none or one secondary.\<close>

definition newSecondary ::
  "Store \<Rightarrow> string option \<Rightarrow> string option \<Rightarrow> Contact \<Rightarrow> Contact list"
where
  "newSecondary s em ph canon =
     (if hasNewEmail (findGroup s (id_c canon)) em \<or> hasNewPhone (findGroup s (id_c canon)) ph
      then [\<lparr> id_c = nextId s, phoneNumber = ph, email = em, linkedId = Some (id_c canon),
               linkPrecedence = Secondary, createdAt = clock s, updatedAt = clock s,
               deletedAt = None \<rparr>]
      else [])"

definition linked :: "Store \<Rightarrow> string option \<Rightarrow> string option \<Rightarrow> Contact \<Rightarrow> Store" where
  "linked s em ph canon =
     s\<lparr> rows := rows s @ newSecondary s em ph canon,
        nextId := nextId s + int (length (newSecondary s em ph canon)) \<rparr>"

subsection \<open>The consolidated view, as the specification words it\<close>

text \<open>
  An ordered set: the values in order, every value at its first occurrence only.
\<close>

definition firstOccurrences :: "'a list \<Rightarrow> 'a list" where
  "firstOccurrences xs = rev (remdups (rev xs))"

text \<open>
  The primary's own value first, then the values of the secondaries in the order given,
  de-duplicated; falsy values are left out.
\<close>

definition consolidated :: "string option \<Rightarrow> string option list \<Rightarrow> string list" where
  "consolidated own secs = firstOccurrences (concat (map pushTruthy (own # secs)))"

subsection \<open>Example stores\<close>

text \<open>A row that was stamped \<open>t\<close> at creation and has not been deleted.\<close>

definition row ::
  "int \<Rightarrow> string option \<Rightarrow> string option \<Rightarrow> int option \<Rightarrow> LinkPrecedence \<Rightarrow> int \<Rightarrow> Contact"
where
  "row i em ph l prec t =
     \<lparr> id_c = i, phoneNumber = ph, email = em, linkedId = l, linkPrecedence = prec,
       createdAt = t, updatedAt = t, deletedAt = None \<rparr>"

definition emptyStore :: Store where
  "emptyStore = \<lparr> rows = [], nextId = 1, clock = 5 \<rparr>"

text \<open>
  Two customers created within the same millisecond, the first of them seen again a
  millisecond later with a new email.
\<close>

definition tieStore :: Store where
  "tieStore =
     \<lparr> rows = [row 1 (Some ''x'') (Some ''y'') None Primary 5,
               row 2 (Some ''b'') (Some ''p2'') None Primary 5,
               row 3 (Some ''a'') (Some ''y'') (Some 1) Secondary 6],
       nextId = 4, clock = 6 \<rparr>"

text \<open>The same table after the request that bridges the two customers.\<close>

definition tieStoreMerged :: Store where
  "tieStoreMerged =
     \<lparr> rows = [row 1 (Some ''x'') (Some ''y'') (Some 2) Secondary 5,
               row 2 (Some ''b'') (Some ''p2'') None Primary 5,
               row 3 (Some ''a'') (Some ''y'') (Some 2) Secondary 6],
       nextId = 4, clock = 6 \<rparr>"

definition tieResponse :: IdentifyResponse where
  "tieResponse =
     \<lparr> primaryContatctId = 2, emails = [''b'', ''x'', ''a''],
       phoneNumbers = [''p2'', ''y''], secondaryContactIds = [1, 3] \<rparr>"

text \<open>
  A customer whose email is the empty string: what the route passes on for an email of
  blanks only, which it trims after testing it.
\<close>

definition blankStore :: Store where
  "blankStore =
     \<lparr> rows = [row 1 (Some '''') (Some ''123'') None Primary 5], nextId = 2, clock = 5 \<rparr>"

text \<open>The same customer after one more request with the same email and phone number.\<close>

definition blankStoreAgain :: Store where
  "blankStoreAgain =
     \<lparr> rows = [row 1 (Some '''') (Some ''123'') None Primary 5,
               row 2 (Some '''') (Some ''123'') (Some 1) Secondary 5],
       nextId = 3, clock = 5 \<rparr>"

text \<open>The same customer after a request with the email \<open>a\<close> and the known phone number.\<close>

definition blankStoreLinked :: Store where
  "blankStoreLinked =
     \<lparr> rows = [row 1 (Some '''') (Some ''123'') None Primary 5,
               row 2 (Some ''a'') (Some ''123'') (Some 1) Secondary 5],
       nextId = 3, clock = 5 \<rparr>"

definition blankLinkedResponse :: IdentifyResponse where
  "blankLinkedResponse =
     \<lparr> primaryContatctId = 1, emails = [''a''], phoneNumbers = [''123''],
       secondaryContactIds = [2] \<rparr>"

text \<open>
  A customer whose phone number is the empty string, and the same customer after one
  more request with the same email and phone number.
\<close>

definition blankPhoneStore :: Store where
  "blankPhoneStore =
     \<lparr> rows = [row 1 (Some ''a'') (Some '''') None Primary 5], nextId = 2, clock = 5 \<rparr>"

definition blankPhoneStoreAgain :: Store where
  "blankPhoneStoreAgain =
     \<lparr> rows = [row 1 (Some ''a'') (Some '''') None Primary 5,
               row 2 (Some ''a'') (Some '''') (Some 1) Secondary 5],
       nextId = 3, clock = 5 \<rparr>"


section \<open>Proofs\<close>

subsection \<open>Lookup and root resolution\<close>

lemma findUnique_SomeD: "findUnique s i = Some p \<Longrightarrow> p \<in> set (rows s) \<and> id_c p = i"
  unfolding findUnique_def by (auto simp: find_Some_iff)

lemma findUnique_None_iff: "findUnique s i = None \<longleftrightarrow> i \<notin> id_c ` set (rows s)"
  unfolding findUnique_def by (auto simp: find_None_iff)

lemma find_distinct_key:
  "distinct (map f xs) \<Longrightarrow> x \<in> set xs \<Longrightarrow> find (\<lambda>r. f r = f x) xs = Some x"
  by (induction xs) auto

lemma findUnique_row:
  "distinct (map id_c (rows s)) \<Longrightarrow> p \<in> set (rows s) \<Longrightarrow> findUnique s (id_c p) = Some p"
  unfolding findUnique_def by (rule find_distinct_key)

lemma findPrimaryContact_in_rows:
  assumes "findPrimaryContact s c = Some root" and "c \<in> set (rows s)"
  shows "root \<in> set (rows s)"
proof -
  have "c \<in> set (rows s) \<longrightarrow> root \<in> set (rows s)"
    by (rule findPrimaryContact.raw_induct
          [where P = "\<lambda>s c root. c \<in> set (rows s) \<longrightarrow> root \<in> set (rows s)", OF _ assms(1)])
       (auto split: option.splits dest: findUnique_SomeD)
  with assms(2) show ?thesis by simp
qed

lemma findPrimaryContact_isRoot:
  assumes "findPrimaryContact s c = Some root"
  shows "isRoot s root"
proof (rule findPrimaryContact.raw_induct [where P = "\<lambda>s c root. isRoot s root", OF _ assms])
  fix rec s current root
  assume IH: "\<And>s c y. rec s c = Some y \<Longrightarrow> isRoot s y"
    and body: "(case linkedId current of None \<Rightarrow> Some current
                | Some l \<Rightarrow> (case findUnique s l of None \<Rightarrow> Some current
                             | Some parent \<Rightarrow> rec s parent)) = Some root"
  show "isRoot s root"
  proof (cases "linkedId current")
    case None
    with body show ?thesis by (simp add: isRoot_def)
  next
    case (Some l)
    show ?thesis
    proof (cases "findUnique s l")
      case None
      with body Some show ?thesis by (auto simp: isRoot_def)
    next
      case (Some parent)
      with body \<open>linkedId current = Some l\<close> have "rec s parent = Some root" by simp
      then show ?thesis by (rule IH)
    qed
  qed
qed

subsection \<open>The resolved primaries\<close>

lemma resolveAll_keys:
  "resolveAll s cs acc = Some ps \<Longrightarrow> distinct (map fst acc) \<Longrightarrow> distinct (map fst ps)"
  by (induction cs arbitrary: acc) (auto split: option.splits simp: distinct_update)

lemma update_key_inv:
  "\<forall>(k, v) \<in> set al. k = f v \<Longrightarrow> \<forall>(k, v) \<in> set (AList.update (f x) x al). k = f v"
  by (induction al) auto

lemma resolveAll_key_is_id:
  "resolveAll s cs acc = Some ps \<Longrightarrow> \<forall>(k, v) \<in> set acc. k = id_c v \<Longrightarrow>
   \<forall>(k, v) \<in> set ps. k = id_c v"
proof (induction cs arbitrary: acc)
  case Nil then show ?case by simp
next
  case (Cons c cs)
  from Cons.prems(1) obtain r where r: "findPrimaryContact s c = Some r"
    and rest: "resolveAll s cs (AList.update (id_c r) r acc) = Some ps"
    by (auto split: option.splits)
  from Cons.prems(2) have "\<forall>(k, v) \<in> set (AList.update (id_c r) r acc). k = id_c v"
    by (rule update_key_inv)
  with Cons.IH[OF rest] show ?case by blast
qed


lemma set_update_subset: "set (AList.update k v al) \<subseteq> insert (k, v) (set al)"
  by (induction al) auto

lemma resolveAll_values:
  "resolveAll s cs acc = Some ps \<Longrightarrow> v \<in> snd ` set ps \<Longrightarrow>
   v \<in> snd ` set acc \<or> (\<exists>c \<in> set cs. findPrimaryContact s c = Some v)"
proof (induction cs arbitrary: acc)
  case Nil then show ?case by simp
next
  case (Cons c cs)
  from Cons.prems(1) obtain r where r: "findPrimaryContact s c = Some r"
    and rest: "resolveAll s cs (AList.update (id_c r) r acc) = Some ps"
    by (auto split: option.splits)
  from Cons.IH[OF rest Cons.prems(2)] show ?case
  proof
    assume "v \<in> snd ` set (AList.update (id_c r) r acc)"
    with set_update_subset[of "id_c r" r acc] have "v = r \<or> v \<in> snd ` set acc"
      by auto
    with r show ?thesis by auto
  next
    assume "\<exists>c\<in>set cs. findPrimaryContact s c = Some v"
    then show ?thesis by auto
  qed
qed

lemma update_nonempty: "AList.update k v al \<noteq> []"
  by (cases al) auto

lemma resolveAll_nonempty:
  "resolveAll s cs acc = Some ps \<Longrightarrow> acc \<noteq> [] \<or> cs \<noteq> [] \<Longrightarrow> ps \<noteq> []"
  by (induction cs arbitrary: acc) (auto split: option.splits simp: update_nonempty)

lemma resolveAll_keys_mono:
  "resolveAll s cs acc = Some ps \<Longrightarrow> fst ` set acc \<subseteq> fst ` set ps"
proof (induction cs arbitrary: acc)
  case Nil then show ?case by simp
next
  case (Cons c cs)
  from Cons.prems(1) obtain r where r: "findPrimaryContact s c = Some r"
    and rest: "resolveAll s cs (AList.update (id_c r) r acc) = Some ps"
    by (auto split: option.splits)
  from Cons.IH[OF rest] show ?case by (auto simp: dom_update)
qed

lemma resolveAll_covers:
  "resolveAll s cs acc = Some ps \<Longrightarrow> c \<in> set cs \<Longrightarrow> findPrimaryContact s c = Some r \<Longrightarrow>
   id_c r \<in> fst ` set ps"
proof (induction cs arbitrary: acc)
  case Nil then show ?case by simp
next
  case (Cons d cs)
  from Cons.prems(1) obtain rd where rd: "findPrimaryContact s d = Some rd"
    and rest: "resolveAll s cs (AList.update (id_c rd) rd acc) = Some ps"
    by (auto split: option.splits)
  show ?case
  proof (cases "c = d")
    case True
    with rd Cons.prems(3) have "rd = r" by simp
    then have "id_c r \<in> fst ` set (AList.update (id_c rd) rd acc)" by (simp add: dom_update)
    with resolveAll_keys_mono[OF rest] show ?thesis by blast
  next
    case False
    with Cons.prems(2) have "c \<in> set cs" by simp
    from Cons.IH[OF rest this Cons.prems(3)] show ?thesis .
  qed
qed

lemma resolveAll_total:
  "(\<forall>c \<in> set cs. findPrimaryContact s c \<noteq> None) \<Longrightarrow> resolveAll s cs acc \<noteq> None"
  by (induction cs arbitrary: acc) (auto split: option.splits)

text \<open>What the sorted list of primaries looks like.\<close>

lemma resolvePrimaries_facts:
  assumes "resolvePrimaries s em ph = Some ps"
  shows "distinct (map id_c ps)"
    and "sorted (map createdAt ps)"
    and "\<forall>q \<in> set ps. q \<in> set (rows s) \<and> isRoot s q \<and>
            (\<exists>c \<in> set (findMatching s em ph). findPrimaryContact s c = Some q)"
    and "findMatching s em ph \<noteq> [] \<Longrightarrow> ps \<noteq> []"
proof -
  from assms obtain al where al: "resolveAll s (findMatching s em ph) [] = Some al"
    and ps: "ps = sort_key createdAt (map snd al)"
    by (auto simp: resolvePrimaries_def sortPrimaries_def)
  have keys: "distinct (map fst al)" using resolveAll_keys[OF al] by simp
  have kv: "\<forall>(k, v) \<in> set al. k = id_c v" using resolveAll_key_is_id[OF al] by simp
  then have "map fst al = map id_c (map snd al)" by (induction al) auto
  with keys have "distinct (map id_c (map snd al))" by simp
  then have d: "distinct (map id_c (sort_key createdAt (map snd al)))"
    by (metis distinct_map distinct_sort set_sort)
  then show "distinct (map id_c ps)" by (simp add: ps)
  show "sorted (map createdAt ps)" by (simp add: ps sorted_sort_key)
  have sub: "set (findMatching s em ph) \<subseteq> set (rows s)"
    by (auto simp: findMatching_def orderByCreatedAt_def)
  show "\<forall>q \<in> set ps. q \<in> set (rows s) \<and> isRoot s q \<and>
            (\<exists>c \<in> set (findMatching s em ph). findPrimaryContact s c = Some q)"
  proof
    fix q assume "q \<in> set ps"
    then have "q \<in> snd ` set al" by (simp add: ps)
    from resolveAll_values[OF al this]
    obtain c where c: "c \<in> set (findMatching s em ph)" "findPrimaryContact s c = Some q"
      by auto
    with sub have "c \<in> set (rows s)" by blast
    with c show "q \<in> set (rows s) \<and> isRoot s q \<and>
            (\<exists>c \<in> set (findMatching s em ph). findPrimaryContact s c = Some q)"
      by (auto intro: findPrimaryContact_in_rows findPrimaryContact_isRoot)
  qed
  show "ps \<noteq> []" if "findMatching s em ph \<noteq> []"
  proof -
    from resolveAll_nonempty[OF al] that have "al \<noteq> []" by simp
    then show ?thesis by (simp add: ps) (metis length_0_conv length_map length_sort)
  qed
qed

subsection \<open>The merge loop in closed form\<close>

lemma relink_Nil: "relink c [] r = r"
  by (simp add: relink_def split: option.splits)

lemma relink_step:
  assumes "c \<noteq> q" "c \<notin> set qs"
  shows "relink c qs
           ((\<lambda>r. if linkedId r = Some q then r\<lparr> linkedId := Some c \<rparr> else r)
              ((\<lambda>r. if id_c r = q then r\<lparr> linkedId := Some c, linkPrecedence := Secondary \<rparr> else r) r))
         = relink c (q # qs) r"
  using assms by (cases "linkedId r") (auto simp: relink_def)

lemma id_c_relink: "id_c (relink c qs r) = id_c r"
  by (simp add: relink_def)

lemma mergeInto_rows:
  assumes "id_c canon \<notin> id_c ` set others"
    and "\<forall>q \<in> set others. id_c q \<in> id_c ` set (rows s)"
  shows "mergeInto s canon others =
           Some (s\<lparr> rows := map (relink (id_c canon) (map id_c others)) (rows s) \<rparr>)"
  using assms
proof (induction others arbitrary: s)
  case Nil
  then show ?case by (simp add: relink_Nil)
next
  case (Cons q qs)
  let ?c = "id_c canon"
  let ?f1 = "\<lambda>r. if id_c r = id_c q then r\<lparr> linkedId := Some ?c, linkPrecedence := Secondary \<rparr> else r"
  let ?f2 = "\<lambda>r. if linkedId r = Some (id_c q) then r\<lparr> linkedId := Some ?c \<rparr> else r"
  let ?s1 = "s\<lparr> rows := map ?f1 (rows s) \<rparr>"
  let ?s2 = "s\<lparr> rows := map ?f2 (map ?f1 (rows s)) \<rparr>"
  from Cons.prems(2) have "id_c q \<in> id_c ` set (rows s)" by simp
  then have "list_ex (\<lambda>r. id_c r = id_c q) (rows s)" by (auto simp: list_ex_iff)
  then have u: "updateLink s (id_c q) ?c Secondary = Some ?s1"
    by (simp add: updateLink_def)
  have rp: "repointChildren ?s1 (id_c q) ?c = ?s2"
    by (simp add: repointChildren_def)
  have "map id_c (map ?f2 (map ?f1 (rows s))) = map id_c (rows s)"
    by (rule nth_equalityI) auto
  then have "set (map id_c (rows ?s2)) = set (map id_c (rows s))" by simp
  then have ids: "id_c ` set (rows ?s2) = id_c ` set (rows s)" by (simp only: set_map)
  have c1: "?c \<noteq> id_c q" and c2: "?c \<notin> set (map id_c qs)" using Cons.prems(1) by auto
  have "mergeInto ?s2 canon qs =
          Some (?s2\<lparr> rows := map (relink ?c (map id_c qs)) (rows ?s2) \<rparr>)"
  proof (rule Cons.IH)
    show "id_c canon \<notin> id_c ` set qs" using Cons.prems(1) by auto
    show "\<forall>q\<in>set qs. id_c q \<in> id_c ` set (rows ?s2)"
      using Cons.prems(2) unfolding ids by simp
  qed
  moreover have "map (relink ?c (map id_c qs)) (rows ?s2) = map (relink ?c (map id_c (q # qs))) (rows s)"
    using relink_step[OF c1 c2] by simp
  ultimately show ?case using u rp by simp
qed

subsection \<open>The cases of a call\<close>

lemma identifyContact_nomatch:
  assumes "findMatching s em ph = []"
  shows "identifyContact s em ph =
           Some (fst (create s em ph None Primary),
                 buildResponse (fst (create s em ph None Primary))
                   (snd (create s em ph None Primary)))"
  using assms by (simp add: identifyContact_def split: prod.splits)

lemma identifyContact_match:
  assumes m: "findMatching s em ph \<noteq> []"
    and p: "resolvePrimaries s em ph = Some (canon # others)"
  shows "identifyContact s em ph =
           Some (linked (merged s canon others) em ph canon,
                 buildResponse (linked (merged s canon others) em ph canon) canon)"
proof -
  from p obtain al where al: "resolveAll s (findMatching s em ph) [] = Some al"
    and sp: "sortPrimaries al = canon # others"
    by (auto simp: resolvePrimaries_def)
  from resolvePrimaries_facts(1)[OF p] have "id_c canon \<notin> id_c ` set others" by auto
  moreover from resolvePrimaries_facts(3)[OF p]
  have "\<forall>q \<in> set others. id_c q \<in> id_c ` set (rows s)" by auto
  ultimately have mg: "mergeInto s canon others = Some (merged s canon others)"
    unfolding merged_def by (rule mergeInto_rows)
  have step: "(if length (canon # others) > 1 then mergeInto s canon others else Some s)
                = Some (merged s canon others)"
  proof (cases others)
    case Nil
    have "map (relink (id_c canon) []) (rows s) = rows s"
      by (rule map_idI) (rule relink_Nil)
    with Nil show ?thesis by (simp add: merged_def)
  next
    case (Cons a list)
    with mg show ?thesis by simp
  qed
  have lk: "(if hasNewEmail (findGroup s2 (id_c canon)) em \<or> hasNewPhone (findGroup s2 (id_c canon)) ph
             then fst (create s2 em ph (Some (id_c canon)) Secondary) else s2)
            = linked s2 em ph canon" for s2
    by (simp add: linked_def newSecondary_def create_def Let_def)
  show ?thesis
    unfolding identifyContact_def Let_def
    using m al sp step lk by (simp del: mergeInto.simps)
qed

lemma identifyContact_diverges:
  assumes "findMatching s em ph \<noteq> []" and "resolvePrimaries s em ph = None"
  shows "identifyContact s em ph = None"
  using assms by (simp add: identifyContact_def resolvePrimaries_def)

lemma identifyContact_cases:
  assumes "identifyContact s em ph = Some (s', resp)"
  obtains
    (nomatch) "findMatching s em ph = []"
      "s' = fst (create s em ph None Primary)"
      "resp = buildResponse s' (snd (create s em ph None Primary))"
  | (match) canon others where "findMatching s em ph \<noteq> []"
      "resolvePrimaries s em ph = Some (canon # others)"
      "s' = linked (merged s canon others) em ph canon"
      "resp = buildResponse s' canon"
proof (cases "findMatching s em ph = []")
  case True
  with assms identifyContact_nomatch[OF True] nomatch show ?thesis by auto
next
  case False
  show ?thesis
  proof (cases "resolvePrimaries s em ph")
    case None
    with False identifyContact_diverges assms show ?thesis by simp
  next
    case (Some ps)
    with resolvePrimaries_facts(4)[OF Some] False obtain canon others where "ps = canon # others"
      by (cases ps) auto
    with Some identifyContact_match[OF False] assms match False show ?thesis by simp
  qed
qed

subsection \<open>Stores that satisfy the group invariant\<close>

lemma same_id_same_row:
  "distinct (map id_c xs) \<Longrightarrow> x \<in> set xs \<Longrightarrow> y \<in> set xs \<Longrightarrow> id_c x = id_c y \<Longrightarrow> x = y"
  by (meson distinct_map inj_onD)

lemma root_is_primary:
  assumes "groupInvariant s" "q \<in> set (rows s)" "isRoot s q"
  shows "linkedId q = None \<and> linkPrecedence q = Primary"
proof (cases "linkedId q")
  case None
  with assms(1,2) show ?thesis by (auto simp: groupInvariant_def wellLinked_def)
next
  case (Some l)
  with assms(1,2) obtain p where "p \<in> set (rows s)" "id_c p = l"
    by (fastforce simp: groupInvariant_def wellLinked_def)
  then have "findUnique s l \<noteq> None" by (auto simp: findUnique_None_iff)
  with assms(3) Some show ?thesis by (auto simp: isRoot_def)
qed

lemma findPrimaryContact_flat:
  assumes "wf_store s" "groupInvariant s" "r \<in> set (rows s)"
  shows "findPrimaryContact s r \<noteq> None"
proof (cases "linkedId r")
  case None
  then show ?thesis by (subst findPrimaryContact.simps) simp
next
  case (Some l)
  with assms(2,3) obtain p where p: "p \<in> set (rows s)" "id_c p = l" "linkedId p = None"
    by (fastforce simp: groupInvariant_def wellLinked_def)
  from assms(1) p have "findUnique s l = Some p"
    using findUnique_row[of s p] by (simp add: wf_store_def)
  moreover from p have "findPrimaryContact s p = Some p"
    by (subst findPrimaryContact.simps) simp
  ultimately show ?thesis using Some by (subst findPrimaryContact.simps) simp
qed

lemma findMatching_subset: "set (findMatching s em ph) \<subseteq> set (rows s)"
  by (auto simp: findMatching_def orderByCreatedAt_def)

lemma resolvePrimaries_flat:
  assumes "wf_store s" "groupInvariant s"
  shows "resolvePrimaries s em ph \<noteq> None"
proof -
  have "\<forall>c \<in> set (findMatching s em ph). findPrimaryContact s c \<noteq> None"
    using findPrimaryContact_flat[OF assms] findMatching_subset by blast
  then have "resolveAll s (findMatching s em ph) [] \<noteq> None" by (rule resolveAll_total)
  then show ?thesis by (simp add: resolvePrimaries_def)
qed

lemma invariants_append:
  assumes wf: "wf_store s" and inv: "groupInvariant s"
    and c: "id_c c = nextId s" "createdAt c = clock s"
    and link: "(linkedId c = None \<and> linkPrecedence c = Primary) \<or>
               (linkPrecedence c = Secondary \<and>
                (\<exists>p \<in> set (rows s). linkedId c = Some (id_c p) \<and> linkPrecedence p = Primary \<and>
                                     linkedId p = None))"
  shows "wf_store (s\<lparr> rows := rows s @ [c], nextId := nextId s + 1 \<rparr>) \<and>
         groupInvariant (s\<lparr> rows := rows s @ [c], nextId := nextId s + 1 \<rparr>)"
proof
  have fresh: "nextId s \<notin> id_c ` set (rows s)" using wf by (auto simp: wf_store_def)
  have clink: "case linkedId c of None \<Rightarrow> True | Some l \<Rightarrow> l < nextId s + 1"
    using link wf by (auto simp: wf_store_def split: option.splits)
  show "wf_store (s\<lparr> rows := rows s @ [c], nextId := nextId s + 1 \<rparr>)"
    using wf c fresh clink by (auto simp: wf_store_def split: option.splits)
  have old: "\<forall>r \<in> set (rows s). wellLinked (rows s @ [c]) r"
    using inv by (fastforce simp: groupInvariant_def wellLinked_def split: option.splits)
  have new: "wellLinked (rows s @ [c]) c"
    using link wf c(2) by (fastforce simp: wf_store_def wellLinked_def split: option.splits)
  show "groupInvariant (s\<lparr> rows := rows s @ [c], nextId := nextId s + 1 \<rparr>)"
    using old new by (simp add: groupInvariant_def)
qed

lemma invariants_merged:
  assumes wf: "wf_store s" and inv: "groupInvariant s"
    and canon: "canon \<in> set (rows s)" "linkedId canon = None" "linkPrecedence canon = Primary"
    and others: "set others \<subseteq> set (rows s)"
    and older: "\<forall>q \<in> set others. createdAt canon \<le> createdAt q"
    and notin: "id_c canon \<notin> id_c ` set others"
  shows "wf_store (merged s canon others)"
    and "groupInvariant (merged s canon others)"
    and "canon \<in> set (rows (merged s canon others))"
proof -
  let ?g = "relink (id_c canon) (map id_c others)"
  have d: "distinct (map id_c (rows s))" using wf by (simp add: wf_store_def)
  have gcanon: "?g canon = canon"
    using canon(2) notin by (simp add: relink_def)
  then show in': "canon \<in> set (rows (merged s canon others))"
    using canon(1) by (force simp: merged_def)
  have ids: "map id_c (map ?g (rows s)) = map id_c (rows s)"
    by (simp add: id_c_relink)
  have cid: "id_c canon < nextId s" using wf canon(1) by (simp add: wf_store_def)
  have bounded: "\<forall>r \<in> set (rows s). id_c (?g r) < nextId s \<and> createdAt (?g r) \<le> clock s \<and>
          (case linkedId (?g r) of None \<Rightarrow> True | Some l \<Rightarrow> l < nextId s)"
    using wf cid by (auto simp: wf_store_def relink_def split: option.splits)
  have r2: "rows (merged s canon others) = map ?g (rows s)"
    "nextId (merged s canon others) = nextId s" "clock (merged s canon others) = clock s"
    by (simp_all add: merged_def)
  show "wf_store (merged s canon others)"
    unfolding wf_store_def r2
  proof (rule conjI)
    show "distinct (map id_c (map ?g (rows s)))" by (simp only: ids d)
    show "\<forall>r\<in>set (map ?g (rows s)). id_c r < nextId s \<and> createdAt r \<le> clock s \<and>
            (case linkedId r of None \<Rightarrow> True | Some l \<Rightarrow> l < nextId s)"
      using bounded by simp
  qed
  have "wellLinked (map ?g (rows s)) (?g r)" if r: "r \<in> set (rows s)" for r
  proof -
    from inv r have wl: "wellLinked (rows s) r" by (simp add: groupInvariant_def)
    have cin: "canon \<in> set (map ?g (rows s))" using in' by (simp add: merged_def)
    show ?thesis
    proof (cases "id_c r \<in> set (map id_c others)")
      case True
      then obtain q where q: "q \<in> set others" "id_c q = id_c r" by auto
      with others d r have "q = r" by (auto intro: same_id_same_row)
      with q older have "createdAt canon \<le> createdAt r" by simp
      with True cin canon show ?thesis
        by (auto simp: wellLinked_def relink_def)
    next
      case False
      show ?thesis
      proof (cases "linkedId r")
        case None
        with False wl show ?thesis by (simp add: wellLinked_def relink_def)
      next
        case (Some l)
        with wl obtain p where p: "p \<in> set (rows s)" "id_c p = l" "linkPrecedence p = Primary"
          "linkedId p = None" "createdAt p \<le> createdAt r" and sec: "linkPrecedence r = Secondary"
          by (auto simp: wellLinked_def)
        show ?thesis
        proof (cases "l \<in> set (map id_c others)")
          case True
          then obtain q where q: "q \<in> set others" "id_c q = l" by auto
          with others d p have "q = p" by (auto intro: same_id_same_row)
          with q older p have "createdAt canon \<le> createdAt r" by fastforce
          with True False Some sec cin canon show ?thesis
            by (auto simp: wellLinked_def relink_def)
        next
          case nl: False
          with p have "?g p = p" by (simp add: relink_def)
          with p have "p \<in> set (map ?g (rows s))" by force
          with nl False Some sec p show ?thesis
            by (auto simp: wellLinked_def relink_def)
        qed
      qed
    qed
  qed
  then show "groupInvariant (merged s canon others)"
    by (simp add: groupInvariant_def merged_def)
qed

lemma sorted_head_least:
  "sorted (map f (x # xs)) \<Longrightarrow> \<forall>y \<in> set xs. f x \<le> f y"
  by simp
subsection \<open>The rows after a call\<close>

lemma relink_frame:
  "relink c qs r = r\<lparr> linkedId := linkedId (relink c qs r),
                       linkPrecedence := linkPrecedence (relink c qs r) \<rparr>"
  by (simp add: relink_def)

lemma frame_fields:
  "r' = r\<lparr> linkedId := l, linkPrecedence := p \<rparr> \<Longrightarrow>
   id_c r' = id_c r \<and> email r' = email r \<and> phoneNumber r' = phoneNumber r \<and>
   createdAt r' = createdAt r \<and> updatedAt r' = updatedAt r \<and> deletedAt r' = deletedAt r"
  by simp

lemma rows_linked: "rows (linked s em ph canon) = rows s @ newSecondary s em ph canon"
  by (simp add: linked_def)

lemma rows_merged: "rows (merged s canon others) = map (relink (id_c canon) (map id_c others)) (rows s)"
  by (simp add: merged_def)

lemma rows_create: "rows (fst (create s em ph l prec)) = rows s @ [snd (create s em ph l prec)]"
  by (simp add: create_def Let_def)

lemma length_merged: "length (rows (merged s canon others)) = length (rows s)"
  by (simp add: merged_def)

lemma mergeInto_merged:
  assumes "resolvePrimaries s em ph = Some (canon # others)"
  shows "mergeInto s canon others = Some (merged s canon others)"
proof -
  from resolvePrimaries_facts(1)[OF assms] have "id_c canon \<notin> id_c ` set others" by auto
  moreover from resolvePrimaries_facts(3)[OF assms]
  have "\<forall>q \<in> set others. id_c q \<in> id_c ` set (rows s)" by auto
  ultimately show ?thesis unfolding merged_def by (rule mergeInto_rows)
qed

lemma find_map_same_key:
  assumes "distinct (map id_c xs)" "x \<in> set xs" "\<And>r. id_c (g r) = id_c r"
  shows "find (\<lambda>r. id_c r = id_c x) (map g xs @ ys) = Some (g x)"
  using assms(1,2)
proof (induction xs)
  case Nil then show ?case by simp
next
  case (Cons a xs)
  show ?case
  proof (cases "a = x")
    case True then show ?thesis by (simp add: assms(3))
  next
    case False
    with Cons.prems have "x \<in> set xs" "id_c a \<noteq> id_c x" by auto
    with Cons show ?thesis by (simp add: assms(3))
  qed
qed

lemma findUnique_after:
  assumes "distinct (map id_c (rows s))" "x \<in> set (rows s)"
  shows "findUnique (linked (merged s canon others) em ph canon) (id_c x) =
           Some (relink (id_c canon) (map id_c others) x)"
  unfolding findUnique_def rows_linked rows_merged
  using assms by (rule find_map_same_key) (rule id_c_relink)

lemma resolvePrimaries_matching:
  assumes "resolvePrimaries s em ph = Some (canon # others)"
  shows "findMatching s em ph \<noteq> []"
proof
  assume "findMatching s em ph = []"
  with assms show False by (simp add: resolvePrimaries_def sortPrimaries_def)
qed

subsection \<open>The response\<close>

lemma collect_fields:
  "primaryContatctId (collect scs acc) = primaryContatctId acc"
  "secondaryContactIds (collect scs acc) = secondaryContactIds acc @ map id_c scs"
  "emails (collect scs acc) = foldl pushNew (emails acc) (map email scs)"
  "phoneNumbers (collect scs acc) = foldl pushNew (phoneNumbers acc) (map phoneNumber scs)"
  by (induction scs arbitrary: acc) simp_all

lemma buildResponse_fields:
  "primaryContatctId (buildResponse s p) = id_c p"
  "secondaryContactIds (buildResponse s p) = map id_c (findByParent s (id_c p))"
  "emails (buildResponse s p) =
     foldl pushNew (pushTruthy (email p)) (map email (findByParent s (id_c p)))"
  "phoneNumbers (buildResponse s p) =
     foldl pushNew (pushTruthy (phoneNumber p)) (map phoneNumber (findByParent s (id_c p)))"
  by (simp_all add: buildResponse_def collect_fields)

lemma set_findByParent:
  "set (findByParent s i) = {r \<in> set (rows s). linkedId r = Some i}"
  by (auto simp: findByParent_def orderByCreatedAt_def)

lemma set_firstOccurrences: "set (firstOccurrences xs) = set xs"
  by (simp add: firstOccurrences_def)

lemma distinct_firstOccurrences: "distinct (firstOccurrences xs)"
  by (simp add: firstOccurrences_def)

lemma firstOccurrences_snoc:
  "firstOccurrences (xs @ [x]) =
     (if x \<in> set xs then firstOccurrences xs else firstOccurrences xs @ [x])"
  by (simp add: firstOccurrences_def)

lemma firstOccurrences_head: "\<exists>rest. firstOccurrences (x # xs) = x # rest"
proof (induction xs rule: rev_induct)
  case Nil
  show ?case by (simp add: firstOccurrences_def)
next
  case (snoc y ys)
  then obtain rest where rest: "firstOccurrences (x # ys) = x # rest" by blast
  have "firstOccurrences ((x # ys) @ [y]) =
          (if y \<in> set (x # ys) then x # rest else x # (rest @ [y]))"
    using rest by (simp only: firstOccurrences_snoc) simp
  then show ?case by auto
qed

lemma pushNew_firstOccurrences:
  "pushNew (firstOccurrences ys) v = firstOccurrences (ys @ pushTruthy v)"
proof (cases v)
  case None
  then show ?thesis by simp
next
  case (Some x)
  then show ?thesis
    by (simp add: firstOccurrences_snoc set_firstOccurrences)
qed

lemma foldl_pushNew:
  "foldl pushNew (firstOccurrences ys) vs = firstOccurrences (ys @ concat (map pushTruthy vs))"
proof (induction vs arbitrary: ys)
  case Nil
  show ?case by simp
next
  case (Cons v vs)
  have "foldl pushNew (firstOccurrences ys) (v # vs) =
          foldl pushNew (firstOccurrences (ys @ pushTruthy v)) vs"
    by (simp add: pushNew_firstOccurrences)
  also have "\<dots> = firstOccurrences ((ys @ pushTruthy v) @ concat (map pushTruthy vs))"
    by (rule Cons.IH)
  finally show ?case by simp
qed

lemma firstOccurrences_pushTruthy: "firstOccurrences (pushTruthy v) = pushTruthy v"
  by (cases v) (simp_all add: firstOccurrences_def)

lemma foldl_pushNew_consolidated:
  "foldl pushNew (pushTruthy own) vs = consolidated own vs"
proof -
  have "foldl pushNew (firstOccurrences (pushTruthy own)) vs =
          firstOccurrences (pushTruthy own @ concat (map pushTruthy vs))"
    by (rule foldl_pushNew)
  then show ?thesis by (simp add: firstOccurrences_pushTruthy consolidated_def)
qed

lemma buildResponse_shape:
  "primaryContatctId (buildResponse s p) = id_c p \<and>
   emails (buildResponse s p) = consolidated (email p) (map email (findByParent s (id_c p))) \<and>
   phoneNumbers (buildResponse s p) =
     consolidated (phoneNumber p) (map phoneNumber (findByParent s (id_c p))) \<and>
   secondaryContactIds (buildResponse s p) = map id_c (findByParent s (id_c p))"
  by (simp add: buildResponse_fields foldl_pushNew_consolidated)

lemma sorted_findByParent: "sorted (map createdAt (findByParent s i))"
  by (simp add: findByParent_def orderByCreatedAt_def sorted_sort_key)

subsection \<open>Termination of root resolution\<close>







subsection \<open>How the example stores arise\<close>

text \<open>
  \<open>tieStore\<close> is what three requests leave of the empty table when the first two arrive
  within the same millisecond; \<open>blankStore\<close> is what one request with an empty email
  leaves of it.
\<close>

lemma tieStore_reachable:
  "Option.bind (identifyContact emptyStore (Some ''x'') (Some ''y'')) (\<lambda>(s1, r1).
   Option.bind (identifyContact s1 (Some ''b'') (Some ''p2'')) (\<lambda>(s2, r2).
   map_option fst (identifyContact (atTime s2 6) (Some ''a'') (Some ''y'')))) = Some tieStore"
  by code_simp

lemma blankStore_reachable:
  "map_option fst (identifyContact emptyStore (Some '''') (Some ''123'')) = Some blankStore"
  by code_simp

subsection \<open>Groups of a flat store\<close>

lemma one_primary_per_record:
  assumes wf: "wf_store s" and inv: "groupInvariant s" and r: "r \<in> set (rows s)"
  shows "\<exists>!p. p \<in> set (rows s) \<and> linkPrecedence p = Primary \<and>
              (r = p \<or> linkedId r = Some (id_c p))"
proof -
  have d: "distinct (map id_c (rows s))" using wf by (simp add: wf_store_def)
  from inv r have wl: "wellLinked (rows s) r" by (simp add: groupInvariant_def)
  show ?thesis
  proof (cases "linkedId r")
    case None
    with wl have "linkPrecedence r = Primary" by (simp add: wellLinked_def)
    with r None show ?thesis by auto
  next
    case (Some l)
    with wl obtain p where p: "p \<in> set (rows s)" "id_c p = l" "linkPrecedence p = Primary"
      and sec: "linkPrecedence r = Secondary"
      by (auto simp: wellLinked_def)
    show ?thesis
    proof (rule ex1I[of _ p])
      show "p \<in> set (rows s) \<and> linkPrecedence p = Primary \<and> (r = p \<or> linkedId r = Some (id_c p))"
        using p Some by simp
    next
      fix p'
      assume p': "p' \<in> set (rows s) \<and> linkPrecedence p' = Primary \<and>
                  (r = p' \<or> linkedId r = Some (id_c p'))"
      with sec have "linkedId r = Some (id_c p')" by auto
      with Some p have "id_c p' = id_c p" by simp
      with d p' p show "p' = p" by (auto intro: same_id_same_row)
    qed
  qed
qed

lemma invariants_created:
  assumes wf: "wf_store s" and inv: "groupInvariant s"
  shows "wf_store (fst (create s em ph None Primary)) \<and>
         groupInvariant (fst (create s em ph None Primary))"
proof -
  let ?c = "snd (create s em ph None Primary)"
  have s': "fst (create s em ph None Primary) =
              s\<lparr> rows := rows s @ [?c], nextId := nextId s + 1 \<rparr>"
    by (simp add: create_def Let_def)
  have "wf_store (s\<lparr> rows := rows s @ [?c], nextId := nextId s + 1 \<rparr>) \<and>
        groupInvariant (s\<lparr> rows := rows s @ [?c], nextId := nextId s + 1 \<rparr>)"
    by (rule invariants_append[OF wf inv]) (simp_all add: create_def Let_def)
  with s' show ?thesis by simp
qed

lemma invariants_linked:
  assumes wf: "wf_store s2" and inv: "groupInvariant s2"
    and canon: "canon \<in> set (rows s2)" "linkedId canon = None" "linkPrecedence canon = Primary"
  shows "wf_store (linked s2 em ph canon) \<and> groupInvariant (linked s2 em ph canon)"
proof (cases "newSecondary s2 em ph canon = []")
  case True
  then have "linked s2 em ph canon = s2" by (simp add: linked_def)
  with wf inv show ?thesis by simp
next
  case False
  then obtain c where c: "newSecondary s2 em ph canon = [c]" "id_c c = nextId s2"
    "createdAt c = clock s2" "linkPrecedence c = Secondary" "linkedId c = Some (id_c canon)"
    by (auto simp: newSecondary_def split: if_splits)
  then have l: "linked s2 em ph canon = s2\<lparr> rows := rows s2 @ [c], nextId := nextId s2 + 1 \<rparr>"
    by (simp add: linked_def)
  have "wf_store (s2\<lparr> rows := rows s2 @ [c], nextId := nextId s2 + 1 \<rparr>) \<and>
        groupInvariant (s2\<lparr> rows := rows s2 @ [c], nextId := nextId s2 + 1 \<rparr>)"
    using c canon by (intro invariants_append[OF wf inv]) auto
  with l show ?thesis by simp
qed

lemma primaries_flat:
  assumes wf: "wf_store s" and inv: "groupInvariant s"
    and p: "resolvePrimaries s em ph = Some (canon # others)"
  shows "canon \<in> set (rows s)" "linkedId canon = None" "linkPrecedence canon = Primary"
    "set others \<subseteq> set (rows s)" "\<forall>q \<in> set others. createdAt canon \<le> createdAt q"
    "id_c canon \<notin> id_c ` set others"
proof -
  note facts = resolvePrimaries_facts[OF p]
  from facts(3) show cin: "canon \<in> set (rows s)" and "set others \<subseteq> set (rows s)" by auto
  from facts(3) have "isRoot s canon" by simp
  from root_is_primary[OF inv cin this]
  show "linkedId canon = None" "linkPrecedence canon = Primary" by simp_all
  from facts(2) show "\<forall>q \<in> set others. createdAt canon \<le> createdAt q"
    by (rule sorted_head_least)
  from facts(1) show "id_c canon \<notin> id_c ` set others" by auto
qed

lemma invariants_after_match:
  assumes wf: "wf_store s" and inv: "groupInvariant s"
    and p: "resolvePrimaries s em ph = Some (canon # others)"
  shows "wf_store (linked (merged s canon others) em ph canon)"
    and "groupInvariant (linked (merged s canon others) em ph canon)"
    and "canon \<in> set (rows (linked (merged s canon others) em ph canon))"
proof -
  note f = primaries_flat[OF wf inv p]
  note m = invariants_merged[OF wf inv f]
  from invariants_linked[OF m(1) m(2) m(3) f(2) f(3)]
  show "wf_store (linked (merged s canon others) em ph canon)"
    and "groupInvariant (linked (merged s canon others) em ph canon)" by simp_all
  from m(3) show "canon \<in> set (rows (linked (merged s canon others) em ph canon))"
    by (simp add: rows_linked)
qed

lemma identify_keeps_invariants:
  assumes wf: "wf_store s" and inv: "groupInvariant s"
  shows "\<exists>s' resp. identifyContact s em ph = Some (s', resp) \<and> wf_store s' \<and> groupInvariant s'"
proof (cases "findMatching s em ph = []")
  case True
  with identifyContact_nomatch[OF True] invariants_created[OF wf inv] show ?thesis by simp
next
  case False
  from resolvePrimaries_flat[OF wf inv] obtain ps where ps: "resolvePrimaries s em ph = Some ps"
    by blast
  with resolvePrimaries_facts(4)[OF ps] False obtain canon others
    where p: "resolvePrimaries s em ph = Some (canon # others)"
    by (cases ps) auto
  from identifyContact_match[OF False p] invariants_after_match(1,2)[OF wf inv p]
  show ?thesis by simp
qed

lemma invariants_atTime:
  assumes "wf_store s" "groupInvariant s" "clock s \<le> t"
  shows "wf_store (atTime s t) \<and> groupInvariant (atTime s t)"
proof
  have "\<forall>r \<in> set (rows s). createdAt r \<le> t"
    using assms(1,3) by (fastforce simp: wf_store_def)
  then show "wf_store (atTime s t)"
    using assms(1) by (auto simp: wf_store_def atTime_def split: option.splits)
  show "groupInvariant (atTime s t)"
    using assms(2) by (simp add: groupInvariant_def atTime_def)
qed

lemma invariants_reachable:
  assumes "reachable s0 s" and "wf_store s0" "groupInvariant s0"
  shows "wf_store s \<and> groupInvariant s"
  using assms
proof (induction rule: reachable.induct)
  case start
  then show ?case by simp
next
  case (call s em ph s' resp)
  then have "wf_store s" "groupInvariant s" by simp_all
  from identify_keeps_invariants[OF this, of em ph] call.hyps(2) show ?case by auto
next
  case (tick s t)
  then show ?case by (simp add: invariants_atTime)
qed

subsection \<open>Requests whose values are null or non-empty\<close>

text \<open>
  For an email and a phone number that are each null or a non-empty string, the test for
  new information is membership among the values of the group, and a request that is
  repeated writes nothing.
\<close>

lemma hasNewEmail_iff:
  assumes "em = None \<or> truthy em"
  shows "hasNewEmail g em \<longleftrightarrow> em \<noteq> None \<and> em \<notin> set (map email g)"
  using assms by (auto simp: hasNewEmail_def existingEmails_def)

lemma hasNewPhone_iff:
  assumes "ph = None \<or> truthy ph"
  shows "hasNewPhone g ph \<longleftrightarrow> ph \<noteq> None \<and> ph \<notin> set (map phoneNumber g)"
  using assms by (auto simp: hasNewPhone_def existingPhones_def)

lemma creation_iff_field_novelty:
  assumes res: "identifyContact s em ph = Some (s', resp)"
    and m: "findMatching s em ph \<noteq> []"
    and em: "em = None \<or> truthy em" and ph: "ph = None \<or> truthy ph"
  shows "\<exists>canon others s2.
           resolvePrimaries s em ph = Some (canon # others) \<and>
           mergeInto s canon others = Some s2 \<and>
           (if (em \<noteq> None \<and> em \<notin> set (map email (findGroup s2 (id_c canon)))) \<or>
               (ph \<noteq> None \<and> ph \<notin> set (map phoneNumber (findGroup s2 (id_c canon))))
            then rows s' = rows s2 @
                   [\<lparr> id_c = nextId s, phoneNumber = ph, email = em,
                      linkedId = Some (id_c canon), linkPrecedence = Secondary,
                      createdAt = clock s, updatedAt = clock s, deletedAt = None \<rparr>]
            else rows s' = rows s2)"
  using res
proof (cases rule: identifyContact_cases)
  case nomatch
  with m show ?thesis by simp
next
  case (match canon others)
  let ?s2 = "merged s canon others"
  have "if (em \<noteq> None \<and> em \<notin> set (map email (findGroup ?s2 (id_c canon)))) \<or>
               (ph \<noteq> None \<and> ph \<notin> set (map phoneNumber (findGroup ?s2 (id_c canon))))
            then rows s' = rows ?s2 @
                   [\<lparr> id_c = nextId s, phoneNumber = ph, email = em,
                      linkedId = Some (id_c canon), linkPrecedence = Secondary,
                      createdAt = clock s, updatedAt = clock s, deletedAt = None \<rparr>]
            else rows s' = rows ?s2"
    using match(3) hasNewEmail_iff[OF em] hasNewPhone_iff[OF ph]
    by (simp add: rows_linked newSecondary_def merged_def)
  with match(2) mergeInto_merged[OF match(2)] show ?thesis by blast
qed

lemma resolveAll_single:
  assumes "\<forall>x \<in> set cs. findPrimaryContact t x = Some c"
    and "acc = [] \<or> acc = [(id_c c, c)]"
  shows "resolveAll t cs acc = Some (if cs = [] then acc else [(id_c c, c)])"
  using assms by (induction cs arbitrary: acc) auto

lemma merged_Nil: "merged t c [] = t"
proof -
  have "map (relink (id_c c) []) (rows t) = rows t"
    by (rule map_idI) (rule relink_Nil)
  then show ?thesis by (simp add: merged_def)
qed

lemma linked_nothing: "newSecondary t em ph c = [] \<Longrightarrow> linked t em ph c = t"
  by (simp add: linked_def)

lemma identify_single_group:
  assumes d: "distinct (map id_c (rows t))"
    and c: "c \<in> set (rows t)" "linkedId c = None"
    and M: "findMatching t em ph \<noteq> []"
    and G: "\<forall>x \<in> set (findMatching t em ph). x = c \<or> linkedId x = Some (id_c c)"
    and K: "\<not> hasNewEmail (findGroup t (id_c c)) em" "\<not> hasNewPhone (findGroup t (id_c c)) ph"
  shows "identifyContact t em ph = Some (t, buildResponse t c)"
proof -
  have cc: "findPrimaryContact t c = Some c"
    using c(2) by (subst findPrimaryContact.simps) simp
  have "\<forall>x \<in> set (findMatching t em ph). findPrimaryContact t x = Some c"
  proof
    fix x assume "x \<in> set (findMatching t em ph)"
    with G have "x = c \<or> linkedId x = Some (id_c c)" by blast
    then show "findPrimaryContact t x = Some c"
    proof
      assume "x = c" with cc show ?thesis by simp
    next
      assume "linkedId x = Some (id_c c)"
      with findUnique_row[OF d c(1)] cc show ?thesis
        by (subst findPrimaryContact.simps) simp
    qed
  qed
  from resolveAll_single[OF this, of "[]"] M
  have "resolveAll t (findMatching t em ph) [] = Some [(id_c c, c)]" by simp
  then have "resolvePrimaries t em ph = Some (c # [])"
    by (simp add: resolvePrimaries_def sortPrimaries_def)
  from identifyContact_match[OF M this] K show ?thesis
    by (simp add: merged_Nil linked_nothing newSecondary_def)
qed

lemma matches_relink: "matches em ph (relink c qs r) = matches em ph r"
  by (simp add: matches_def relink_def)

lemma findMatching_nonempty_iff:
  "findMatching t em ph \<noteq> [] \<longleftrightarrow> (\<exists>r \<in> set (rows t). matches em ph r)"
  by (metis (no_types, lifting) filter_empty_conv findMatching_def length_0_conv length_sort
      orderByCreatedAt_def)

lemma set_findMatching: "set (findMatching t em ph) = {r \<in> set (rows t). matches em ph r}"
  by (auto simp: findMatching_def orderByCreatedAt_def)

lemma resolveAll_each:
  "resolveAll s cs acc = Some al \<Longrightarrow> c \<in> set cs \<Longrightarrow> findPrimaryContact s c \<noteq> None"
  by (induction cs arbitrary: acc) (auto split: option.splits)

lemma resolvePrimaries_covers:
  assumes d: "distinct (map id_c (rows s))"
    and p: "resolvePrimaries s em ph = Some ps"
    and r: "r \<in> set (findMatching s em ph)"
  shows "\<exists>q \<in> set ps. findPrimaryContact s r = Some q"
proof -
  from p obtain al where al: "resolveAll s (findMatching s em ph) [] = Some al"
    and ps: "ps = sort_key createdAt (map snd al)"
    by (auto simp: resolvePrimaries_def sortPrimaries_def)
  from resolveAll_each[OF al r] obtain root where root: "findPrimaryContact s r = Some root"
    by auto
  from resolveAll_covers[OF al r root] obtain q where q: "(id_c root, q) \<in> set al"
    by auto
  with resolveAll_key_is_id[OF al] have idq: "id_c q = id_c root" by auto
  from q have qps: "q \<in> set ps" by (force simp: ps)
  with resolvePrimaries_facts(3)[OF p] have "q \<in> set (rows s)" by simp
  moreover from r findMatching_subset have "r \<in> set (rows s)" by blast
  with root have "root \<in> set (rows s)" by (rule findPrimaryContact_in_rows)
  ultimately have "q = root" using d idq by (auto intro: same_id_same_row)
  with qps root show ?thesis by simp
qed

text \<open>After a call, every matching record is the canonical primary or points at it.\<close>

lemma matched_rows_in_group:
  assumes wf: "wf_store s" and inv: "groupInvariant s"
    and p: "resolvePrimaries s em ph = Some (canon # others)"
    and r: "r \<in> set (rows s)" "matches em ph r"
  shows "relink (id_c canon) (map id_c others) r = canon \<or>
         linkedId (relink (id_c canon) (map id_c others) r) = Some (id_c canon)"
proof -
  let ?g = "relink (id_c canon) (map id_c others)"
  have d: "distinct (map id_c (rows s))" using wf by (simp add: wf_store_def)
  note f = primaries_flat[OF wf inv p]
  from r have "r \<in> set (findMatching s em ph)" by (simp add: set_findMatching)
  from resolvePrimaries_covers[OF d p this] obtain q
    where q: "q \<in> set (canon # others)" "findPrimaryContact s r = Some q" by blast
  from inv r(1) have wl: "wellLinked (rows s) r" by (simp add: groupInvariant_def)
  show ?thesis
  proof (cases "linkedId r")
    case None
    then have "findPrimaryContact s r = Some r" by (subst findPrimaryContact.simps) simp
    with q have "r = canon \<or> r \<in> set others" by auto
    then show ?thesis
    proof
      assume "r = canon"
      then show ?thesis using f(2,6) by (simp add: relink_def)
    next
      assume "r \<in> set others"
      then show ?thesis by (simp add: relink_def)
    qed
  next
    case (Some l)
    with wl obtain pr where pr: "pr \<in> set (rows s)" "id_c pr = l" "linkedId pr = None"
      by (auto simp: wellLinked_def)
    with d have "findUnique s l = Some pr" using findUnique_row[of s pr] by simp
    moreover from pr have "findPrimaryContact s pr = Some pr"
      by (subst findPrimaryContact.simps) simp
    ultimately have "findPrimaryContact s r = Some pr"
      using Some by (subst findPrimaryContact.simps) simp
    with q have "pr \<in> set (canon # others)" by simp
    then have "l = id_c canon \<or> l \<in> set (map id_c others)" using pr(2) by auto
    with Some show ?thesis by (auto simp: relink_def)
  qed
qed

lemma hasNewEmail_known:
  assumes "em = None \<or> truthy em" "n \<in> set g" "email n = em"
  shows "\<not> hasNewEmail g em"
  using assms by (auto simp: hasNewEmail_def existingEmails_def)

lemma hasNewPhone_known:
  assumes "ph = None \<or> truthy ph" "n \<in> set g" "phoneNumber n = ph"
  shows "\<not> hasNewPhone g ph"
  using assms by (auto simp: hasNewPhone_def existingPhones_def)

lemma findGroup_linked:
  "findGroup (linked s2 em ph canon) i =
     findGroup s2 i @ filter (\<lambda>r. id_c r = i \<or> linkedId r = Some i) (newSecondary s2 em ph canon)"
  by (simp add: findGroup_def rows_linked)

lemma identify_idempotent:
  assumes wf: "wf_store s" and inv: "groupInvariant s"
    and em: "em = None \<or> truthy em" and ph: "ph = None \<or> truthy ph"
    and given: "truthy em \<or> truthy ph"
    and res: "identifyContact s em ph = Some (s1, r1)"
  shows "identifyContact s1 em ph = Some (s1, r1)"
  using res
proof (cases rule: identifyContact_cases)
  case nomatch
  let ?n = "snd (create s em ph None Primary)"
  have n: "id_c ?n = nextId s" "email ?n = em" "phoneNumber ?n = ph" "linkedId ?n = None"
    by (simp_all add: create_def Let_def)
  have rows1: "rows s1 = rows s @ [?n]" using nomatch(2) by (simp add: rows_create)
  from invariants_created[OF wf inv] nomatch(2) have wf1: "wf_store s1" by simp
  then have d1: "distinct (map id_c (rows s1))" by (simp add: wf_store_def)
  have mn: "matches em ph ?n" using given n by (auto simp: matches_def)
  have nom: "\<forall>r \<in> set (rows s). \<not> matches em ph r"
    using nomatch(1) findMatching_nonempty_iff[of s em ph] by blast
  have sm: "set (findMatching s1 em ph) = {?n}"
    using mn nom by (auto simp: set_findMatching rows1)
  then have M: "findMatching s1 em ph \<noteq> []" by auto
  have G: "\<forall>x \<in> set (findMatching s1 em ph). x = ?n \<or> linkedId x = Some (id_c ?n)"
    using sm by simp
  have "?n \<in> set (findGroup s1 (id_c ?n))" by (simp add: findGroup_def rows1)
  then have K: "\<not> hasNewEmail (findGroup s1 (id_c ?n)) em"
               "\<not> hasNewPhone (findGroup s1 (id_c ?n)) ph"
    using hasNewEmail_known[OF em _ n(2)] hasNewPhone_known[OF ph _ n(3)] by blast+
  have "identifyContact s1 em ph = Some (s1, buildResponse s1 ?n)"
    by (rule identify_single_group[OF d1 _ n(4) M G K]) (simp add: rows1)
  with nomatch(3) show ?thesis by simp
next
  case (match canon others)
  let ?g = "relink (id_c canon) (map id_c others)"
  let ?s2 = "merged s canon others"
  let ?new = "newSecondary ?s2 em ph canon"
  note f = primaries_flat[OF wf inv match(2)]
  note a = invariants_after_match[OF wf inv match(2)]
  have rows1: "rows s1 = map ?g (rows s) @ ?new"
    using match(3) by (simp add: rows_linked rows_merged)
  have d1: "distinct (map id_c (rows s1))" using a(1) match(3) by (simp add: wf_store_def)
  have cin: "canon \<in> set (rows s1)" using a(3) match(3) by simp
  have newrow: "linkedId n = Some (id_c canon) \<and> email n = em \<and> phoneNumber n = ph"
    if "n \<in> set ?new" for n
    using that by (auto simp: newSecondary_def split: if_splits)
  from match(1) obtain r0 where r0: "r0 \<in> set (rows s)" "matches em ph r0"
    using findMatching_nonempty_iff[of s em ph] by blast
  then have "?g r0 \<in> set (rows s1)" "matches em ph (?g r0)"
    by (simp_all add: rows1 matches_relink)
  then have M: "findMatching s1 em ph \<noteq> []"
    using findMatching_nonempty_iff[of s1 em ph] by blast
  have G: "\<forall>x \<in> set (findMatching s1 em ph). x = canon \<or> linkedId x = Some (id_c canon)"
  proof
    fix x assume "x \<in> set (findMatching s1 em ph)"
    then have x: "x \<in> set (rows s1)" "matches em ph x" by (simp_all add: set_findMatching)
    from x(1) rows1 consider r where "r \<in> set (rows s)" "x = ?g r" | "x \<in> set ?new"
      by auto
    then show "x = canon \<or> linkedId x = Some (id_c canon)"
    proof cases
      case 1
      with x(2) have "matches em ph r" by (simp add: matches_relink)
      from matched_rows_in_group[OF wf inv match(2) 1(1) this] 1(2) show ?thesis by simp
    next
      case 2
      with newrow show ?thesis by simp
    qed
  qed
  have K: "\<not> hasNewEmail (findGroup s1 (id_c canon)) em"
          "\<not> hasNewPhone (findGroup s1 (id_c canon)) ph"
  proof -
    show "\<not> hasNewEmail (findGroup s1 (id_c canon)) em"
    proof (cases "?new = []")
      case True
      then have "\<not> hasNewEmail (findGroup ?s2 (id_c canon)) em"
        by (auto simp: newSecondary_def split: if_splits)
      with True match(3) show ?thesis by (simp add: findGroup_linked)
    next
      case False
      then obtain n where n: "n \<in> set ?new" by (cases ?new) auto
      with newrow[OF n] match(3) have "n \<in> set (findGroup s1 (id_c canon))"
        by (simp add: findGroup_linked)
      from hasNewEmail_known[OF em this] newrow[OF n] show ?thesis by simp
    qed
    show "\<not> hasNewPhone (findGroup s1 (id_c canon)) ph"
    proof (cases "?new = []")
      case True
      then have "\<not> hasNewPhone (findGroup ?s2 (id_c canon)) ph"
        by (auto simp: newSecondary_def split: if_splits)
      with True match(3) show ?thesis by (simp add: findGroup_linked)
    next
      case False
      then obtain n where n: "n \<in> set ?new" by (cases ?new) auto
      with newrow[OF n] match(3) have "n \<in> set (findGroup s1 (id_c canon))"
        by (simp add: findGroup_linked)
      from hasNewPhone_known[OF ph this] newrow[OF n] show ?thesis by simp
    qed
  qed
  have "identifyContact s1 em ph = Some (s1, buildResponse s1 canon)"
    by (rule identify_single_group[OF d1 cin f(2) M G K])
  with match(4) show ?thesis by simp
qed


subsection \<open>The records a call inserts\<close>

text \<open>
  A call that returns appends at most one record: a primary when nothing matched, and
  otherwise a secondary of the canonical primary exactly when the test of the code for
  new information holds of the reloaded group. For an email and a phone number that are
  each null or non-empty that test is membership among the values of the group
  (\<open>creation_iff_field_novelty\<close>).
\<close>

lemma insertions_of_a_call:
  assumes "identifyContact s em ph = Some (s', resp)"
  shows "(if findMatching s em ph = []
          then \<exists>c. rows s' = rows s @ [c] \<and> linkPrecedence c = Primary \<and> linkedId c = None
          else \<exists>canon others s2.
                 resolvePrimaries s em ph = Some (canon # others) \<and>
                 mergeInto s canon others = Some s2 \<and>
                 length (rows s2) = length (rows s) \<and>
                 (if hasNewEmail (findGroup s2 (id_c canon)) em \<or>
                     hasNewPhone (findGroup s2 (id_c canon)) ph
                  then \<exists>c. rows s' = rows s2 @ [c] \<and> linkPrecedence c = Secondary \<and>
                           linkedId c = Some (id_c canon)
                  else rows s' = rows s2)) \<and>
         length (rows s') \<le> length (rows s) + 1"
  using assms
proof (cases rule: identifyContact_cases)
  case nomatch
  then show ?thesis by (simp add: rows_create) (simp add: create_def Let_def)
next
  case (match canon others)
  let ?s2 = "merged s canon others"
  have "if hasNewEmail (findGroup ?s2 (id_c canon)) em \<or> hasNewPhone (findGroup ?s2 (id_c canon)) ph
        then \<exists>c. rows s' = rows ?s2 @ [c] \<and> linkPrecedence c = Secondary \<and>
                 linkedId c = Some (id_c canon)
        else rows s' = rows ?s2"
    using match(3) by (simp add: rows_linked newSecondary_def)
  moreover have "length (rows s') \<le> length (rows s) + 1"
    using match(3) by (simp add: rows_linked length_merged newSecondary_def)
  ultimately show ?thesis
    using match(1,2) mergeInto_merged[OF match(2)] length_merged[of s canon others]
    by auto
qed

section \<open>The claims\<close>

subsection \<open>Claim C1: when a new record is created\<close>

text \<open>
  C1 says that, when some record matches, a record is created if and only if the given
  email is not among the emails of the group or the given phone number is not among its
  phone numbers. The code breaks this for an empty email: \<open>blankStore\<close> holds one
  customer whose email is the empty string and whose phone number is 123; the request
  with exactly this email and this phone number matches on the phone number, both
  values are among the values of the group, and yet \<open>identifyContact\<close> appends a
  secondary. The set of existing emails is filtered by truthiness, so the empty string is
  never found in it, while the test of the input is \<^verbatim>\<open>email !== null\<close>. For an email
  and a phone number that are each null or non-empty the code does what C1 says
  (\<open>creation_iff_field_novelty\<close>).
\<close>

theorem empty_email_counts_as_new:
  "findGroup blankStore 1 = [row 1 (Some '''') (Some ''123'') None Primary 5] \<and>
   Some '''' \<in> set (map email (findGroup blankStore 1)) \<and>
   Some ''123'' \<in> set (map phoneNumber (findGroup blankStore 1)) \<and>
   resolvePrimaries blankStore (Some '''') (Some ''123'') =
     Some [row 1 (Some '''') (Some ''123'') None Primary 5] \<and>
   hasNewEmail (findGroup blankStore 1) (Some '''') \<and>
   identifyContact blankStore (Some '''') (Some ''123'') =
     Some (blankStoreAgain,
           \<lparr> primaryContatctId = 1, emails = [], phoneNumbers = [''123''],
             secondaryContactIds = [2] \<rparr>)"
  by code_simp

subsection \<open>Claim C2: the canonical primary\<close>




subsection \<open>Claim C3: demotion and repointing\<close>

text \<open>
  C3. When a call of \<open>identifyContact\<close> on a table with unique ids resolves the matched
  records to more than one primary, every primary \<open>q\<close> after the canonical one is, in the
  store the call leaves, the same record with \<^verbatim>\<open>linkPrecedence\<close> secondary and
  \<^verbatim>\<open>linkedId\<close> the id of the canonical primary; every record whose \<^verbatim>\<open>linkedId\<close> was
  the id of \<open>q\<close> is the same record with \<^verbatim>\<open>linkedId\<close> the id of the canonical primary;
  and the ids of all of them are among the \<^verbatim>\<open>secondaryContactIds\<close> of the response.
\<close>

theorem merge_demotes_and_repoints:
  assumes res: "identifyContact s em ph = Some (s', resp)"
    and prim: "resolvePrimaries s em ph = Some (canon # others)"
    and q: "q \<in> set others"
    and d: "distinct (map id_c (rows s))"
  shows "findUnique s' (id_c q) =
           Some (q\<lparr> linkedId := Some (id_c canon), linkPrecedence := Secondary \<rparr>) \<and>
         id_c q \<in> set (secondaryContactIds resp) \<and>
         (\<forall>c \<in> set (rows s).
            linkedId c = Some (id_c q) \<longrightarrow>
              findUnique s' (id_c c) = Some (c\<lparr> linkedId := Some (id_c canon) \<rparr>) \<and>
              id_c c \<in> set (secondaryContactIds resp))"
proof -
  let ?g = "relink (id_c canon) (map id_c others)"
  note m = resolvePrimaries_matching[OF prim]
  from identifyContact_match[OF m prim] res
  have s': "s' = linked (merged s canon others) em ph canon"
    and resp: "resp = buildResponse s' canon" by simp_all
  note facts = resolvePrimaries_facts[OF prim]
  from facts(3) q have qin: "q \<in> set (rows s)" by simp
  have listed: "id_c x \<in> set (secondaryContactIds resp)"
    if "x \<in> set (rows s)" "linkedId (?g x) = Some (id_c canon)" for x
  proof -
    from that(1) have "?g x \<in> set (rows s')" by (simp add: s' rows_linked rows_merged)
    with that(2) have "?g x \<in> set (findByParent s' (id_c canon))"
      by (simp add: set_findByParent)
    then have "id_c (?g x) \<in> set (map id_c (findByParent s' (id_c canon)))"
      by simp
    then show ?thesis by (simp add: resp buildResponse_fields id_c_relink)
  qed
  have gq: "?g q = q\<lparr> linkedId := Some (id_c canon), linkPrecedence := Secondary \<rparr>"
    using q by (simp add: relink_def)
  have part1: "findUnique s' (id_c q) =
           Some (q\<lparr> linkedId := Some (id_c canon), linkPrecedence := Secondary \<rparr>)"
    using findUnique_after[OF d qin] gq by (simp add: s')
  have part2: "id_c q \<in> set (secondaryContactIds resp)"
    using listed[OF qin] gq by simp
  have part3: "findUnique s' (id_c c) = Some (c\<lparr> linkedId := Some (id_c canon) \<rparr>) \<and>
              id_c c \<in> set (secondaryContactIds resp)"
    if cin: "c \<in> set (rows s)" and cl: "linkedId c = Some (id_c q)" for c
  proof -
    have notroot: "\<not> isRoot s c"
      using cl findUnique_row[OF d qin] by (simp add: isRoot_def)
    have "id_c c \<notin> set (map id_c others)"
    proof
      assume "id_c c \<in> set (map id_c others)"
      then obtain q' where q': "q' \<in> set others" "id_c q' = id_c c" by auto
      with facts(3) have "q' \<in> set (rows s)" "isRoot s q'" by auto
      with q' d cin have "q' = c" by (auto intro: same_id_same_row)
      with \<open>isRoot s q'\<close> notroot show False by simp
    qed
    with cl q have gc: "?g c = c\<lparr> linkedId := Some (id_c canon) \<rparr>"
      by (simp add: relink_def)
    from findUnique_after[OF d cin] gc listed[OF cin] show ?thesis by (simp add: s')
  qed
  from part1 part2 part3 show ?thesis by blast
qed

theorem merge_demotes_and_repoints_witness:
  "identifyContact tieStore (Some ''a'') (Some ''p2'') = Some (tieStoreMerged, tieResponse) \<and>
   resolvePrimaries tieStore (Some ''a'') (Some ''p2'') =
     Some (row 2 (Some ''b'') (Some ''p2'') None Primary 5 #
           [row 1 (Some ''x'') (Some ''y'') None Primary 5]) \<and>
   distinct (map id_c (rows tieStore)) \<and>
   findUnique tieStoreMerged 1 = Some (row 1 (Some ''x'') (Some ''y'') (Some 2) Secondary 5) \<and>
   1 \<in> set (secondaryContactIds tieResponse) \<and>
   findUnique tieStoreMerged 3 = Some (row 3 (Some ''a'') (Some ''y'') (Some 2) Secondary 6) \<and>
   3 \<in> set (secondaryContactIds tieResponse)"
proof -
  let ?p = "row 2 (Some ''b'') (Some ''p2'') None Primary 5"
  let ?q = "row 1 (Some ''x'') (Some ''y'') None Primary 5"
  let ?c = "row 3 (Some ''a'') (Some ''y'') (Some 1) Secondary 6"
  have h1: "identifyContact tieStore (Some ''a'') (Some ''p2'') =
              Some (tieStoreMerged, tieResponse)"
    by code_simp
  have h2: "resolvePrimaries tieStore (Some ''a'') (Some ''p2'') = Some (?p # [?q])"
    by code_simp
  have h3: "?q \<in> set [?q]" by simp
  have h4: "distinct (map id_c (rows tieStore))" by code_simp
  have c: "?c \<in> set (rows tieStore)" "linkedId ?c = Some (id_c ?q)"
    by (simp_all add: tieStore_def row_def)
  from merge_demotes_and_repoints [OF h1 h2 h3 h4] c
  have "findUnique tieStoreMerged (id_c ?q) =
          Some (?q\<lparr> linkedId := Some (id_c ?p), linkPrecedence := Secondary \<rparr>) \<and>
        id_c ?q \<in> set (secondaryContactIds tieResponse) \<and>
        findUnique tieStoreMerged (id_c ?c) = Some (?c\<lparr> linkedId := Some (id_c ?p) \<rparr>) \<and>
        id_c ?c \<in> set (secondaryContactIds tieResponse)"
    by blast
  then show ?thesis using h1 h2 h4 by (simp add: row_def)
qed

subsection \<open>Claim C4: repeating a request\<close>

text \<open>
  C4 says that a request whose values the group already knows writes nothing when it is
  repeated. The code breaks this for an empty email. On the empty table the request with
  the empty email and the phone number 123 creates the primary of \<open>blankStore\<close>; the same
  request again appends a secondary with the same two values, and once more appends
  another: no repetition leaves the table unchanged, and the response changes each time.
  For an email and a phone number that are each null or non-empty, and not both null, a
  repeated request writes nothing and returns the same response (\<open>identify_idempotent\<close>).
\<close>

theorem repeat_with_empty_email_writes:
  "identifyContact emptyStore (Some '''') (Some ''123'') =
     Some (blankStore,
           \<lparr> primaryContatctId = 1, emails = [], phoneNumbers = [''123''],
             secondaryContactIds = [] \<rparr>) \<and>
   identifyContact blankStore (Some '''') (Some ''123'') =
     Some (blankStoreAgain,
           \<lparr> primaryContatctId = 1, emails = [], phoneNumbers = [''123''],
             secondaryContactIds = [2] \<rparr>) \<and>
   identifyContact blankStoreAgain (Some '''') (Some ''123'') =
     Some (\<lparr> rows = rows blankStoreAgain @
                      [row 3 (Some '''') (Some ''123'') (Some 1) Secondary 5],
             nextId = 4, clock = 5 \<rparr>,
           \<lparr> primaryContatctId = 1, emails = [], phoneNumbers = [''123''],
             secondaryContactIds = [2, 3] \<rparr>) \<and>
   rows blankStoreAgain \<noteq> rows blankStore"
  by code_simp

subsection \<open>Claim C5: the group invariant is preserved\<close>

text \<open>
  C5 (as amended). Every store that arises from a well-formed store satisfying the group
  invariant, by calls of \<open>identifyContact\<close> and by time passing, is well formed and
  satisfies the group invariant: every record is either a primary without a parent or a
  secondary that points directly at a primary of the table, and no secondary has an
  earlier \<^verbatim>\<open>createdAt\<close> than its primary. Every record therefore belongs to the group
  of exactly one primary. Every call of \<open>identifyContact\<close> on such a store returns and
  leaves such a store. Among records with the same \<^verbatim>\<open>createdAt\<close> the primary need not
  be the one with the lowest id.
\<close>

theorem identify_preserves_invariants:
  assumes "wf_store s0" and "groupInvariant s0" and "reachable s0 s"
  shows "wf_store s \<and> groupInvariant s \<and>
         (\<forall>r \<in> set (rows s).
            \<exists>!p. p \<in> set (rows s) \<and> linkPrecedence p = Primary \<and>
                 (r = p \<or> linkedId r = Some (id_c p))) \<and>
         (\<exists>s' resp. identifyContact s em ph = Some (s', resp) \<and>
                     wf_store s' \<and> groupInvariant s')"
proof -
  from invariants_reachable[OF assms(3,1,2)] have i: "wf_store s" "groupInvariant s"
    by simp_all
  from one_primary_per_record[OF i] identify_keeps_invariants[OF i, of em ph] i
  show ?thesis by blast
qed

theorem identify_preserves_invariants_witness:
  "wf_store emptyStore \<and> groupInvariant emptyStore \<and> reachable emptyStore tieStore \<and>
   wf_store tieStore \<and> groupInvariant tieStore \<and>
   (\<exists>s' resp. identifyContact tieStore (Some ''a'') (Some ''p2'') = Some (s', resp) \<and>
               wf_store s' \<and> groupInvariant s')"
proof -
  let ?s1 = "\<lparr> rows = [row 1 (Some ''x'') (Some ''y'') None Primary 5], nextId = 2, clock = 5 \<rparr>"
  let ?s2 = "\<lparr> rows = [row 1 (Some ''x'') (Some ''y'') None Primary 5,
                        row 2 (Some ''b'') (Some ''p2'') None Primary 5],
               nextId = 3, clock = 5 \<rparr>"
  have h1: "wf_store emptyStore" by code_simp
  have h2: "groupInvariant emptyStore" by code_simp
  have c1: "identifyContact emptyStore (Some ''x'') (Some ''y'') =
              Some (?s1, \<lparr> primaryContatctId = 1, emails = [''x''], phoneNumbers = [''y''],
                           secondaryContactIds = [] \<rparr>)"
    by code_simp
  have c2: "identifyContact ?s1 (Some ''b'') (Some ''p2'') =
              Some (?s2, \<lparr> primaryContatctId = 2, emails = [''b''], phoneNumbers = [''p2''],
                           secondaryContactIds = [] \<rparr>)"
    by code_simp
  have c3: "identifyContact (atTime ?s2 6) (Some ''a'') (Some ''y'') =
              Some (tieStore, \<lparr> primaryContatctId = 1, emails = [''x'', ''a''],
                                phoneNumbers = [''y''], secondaryContactIds = [3] \<rparr>)"
    by code_simp
  have t: "clock ?s2 \<le> 6" by simp
  have h3: "reachable emptyStore tieStore"
    by (rule reachable.call [OF reachable.tick [OF reachable.call
          [OF reachable.call [OF reachable.start c1] c2] t] c3])
  show ?thesis
    using h1 h2 h3 identify_preserves_invariants [OF h1 h2 h3, of "Some ''a''" "Some ''p2''"]
    by blast
qed

text \<open>
  With ties broken by id the invariant is not preserved: in \<open>tieStore\<close> every primary
  comes first in its group also by id, and after the bridging request the group of
  contact 2 holds contact 1, created in the same millisecond with the lower id.
\<close>

theorem primary_first_with_ties_counterexample:
  "wf_store tieStore \<and> groupInvariant tieStore \<and> primaryFirstWithTies tieStore \<and>
   identifyContact tieStore (Some ''a'') (Some ''p2'') = Some (tieStoreMerged, tieResponse) \<and>
   \<not> primaryFirstWithTies tieStoreMerged"
  by code_simp

subsection \<open>Claim C6: the order of the response\<close>

text \<open>
  C6 (as amended). Every response that \<open>identifyContact\<close> returns is the consolidated
  view of the canonical primary \<open>p\<close> (the created record when nothing matched) in the
  store the call leaves: \<^verbatim>\<open>emails\<close> is the primary's own email followed by the emails
  of its secondaries in ascending order of \<^verbatim>\<open>createdAt\<close>, each value at its first
  occurrence only and null and empty values left out, so that \<^verbatim>\<open>emails[0]\<close> is the
  primary's own email when that is neither null nor empty; \<^verbatim>\<open>phoneNumbers\<close> likewise;
  and \<^verbatim>\<open>secondaryContactIds\<close> lists the records whose \<^verbatim>\<open>linkedId\<close> is the id of the
  primary, all of them, in ascending order of \<^verbatim>\<open>createdAt\<close>.
\<close>

theorem consolidated_response_order:
  assumes "identifyContact s em ph = Some (s', resp)"
  shows "\<exists>p. (if findMatching s em ph = [] then p = last (rows s')
              else \<exists>others. resolvePrimaries s em ph = Some (p # others)) \<and>
             primaryContatctId resp = id_c p \<and>
             emails resp = consolidated (email p) (map email (findByParent s' (id_c p))) \<and>
             phoneNumbers resp =
               consolidated (phoneNumber p) (map phoneNumber (findByParent s' (id_c p))) \<and>
             (\<forall>v. email p = Some v \<and> v \<noteq> [] \<longrightarrow> (\<exists>rest. emails resp = v # rest)) \<and>
             (\<forall>v. phoneNumber p = Some v \<and> v \<noteq> [] \<longrightarrow> (\<exists>rest. phoneNumbers resp = v # rest)) \<and>
             distinct (emails resp) \<and> distinct (phoneNumbers resp) \<and>
             secondaryContactIds resp = map id_c (findByParent s' (id_c p)) \<and>
             sorted (map createdAt (findByParent s' (id_c p))) \<and>
             set (findByParent s' (id_c p)) = {r \<in> set (rows s'). linkedId r = Some (id_c p)}"
proof -
  have shape: "primaryContatctId resp = id_c p \<and>
             emails resp = consolidated (email p) (map email (findByParent s' (id_c p))) \<and>
             phoneNumbers resp =
               consolidated (phoneNumber p) (map phoneNumber (findByParent s' (id_c p))) \<and>
             (\<forall>v. email p = Some v \<and> v \<noteq> [] \<longrightarrow> (\<exists>rest. emails resp = v # rest)) \<and>
             (\<forall>v. phoneNumber p = Some v \<and> v \<noteq> [] \<longrightarrow> (\<exists>rest. phoneNumbers resp = v # rest)) \<and>
             distinct (emails resp) \<and> distinct (phoneNumbers resp) \<and>
             secondaryContactIds resp = map id_c (findByParent s' (id_c p)) \<and>
             sorted (map createdAt (findByParent s' (id_c p))) \<and>
             set (findByParent s' (id_c p)) = {r \<in> set (rows s'). linkedId r = Some (id_c p)}"
    if "resp = buildResponse s' p" for p
    using that buildResponse_shape[of s' p]
    by (auto simp: sorted_findByParent set_findByParent
          consolidated_def distinct_firstOccurrences intro!: firstOccurrences_head)
  from assms show ?thesis
  proof (cases rule: identifyContact_cases)
    case nomatch
    have "snd (create s em ph None Primary) = last (rows s')"
      using nomatch(2) by (simp add: rows_create)
    with nomatch(1) shape[OF nomatch(3)] show ?thesis by auto
  next
    case (match canon others)
    with shape[OF match(4)] show ?thesis by auto
  qed
qed

theorem consolidated_response_order_witness:
  "identifyContact tieStore (Some ''a'') (Some ''p2'') = Some (tieStoreMerged, tieResponse) \<and>
   (\<exists>p. (if findMatching tieStore (Some ''a'') (Some ''p2'') = []
          then p = last (rows tieStoreMerged)
          else \<exists>others. resolvePrimaries tieStore (Some ''a'') (Some ''p2'') =
                          Some (p # others)) \<and>
         primaryContatctId tieResponse = id_c p \<and>
         emails tieResponse =
           consolidated (email p) (map email (findByParent tieStoreMerged (id_c p))) \<and>
         phoneNumbers tieResponse =
           consolidated (phoneNumber p)
             (map phoneNumber (findByParent tieStoreMerged (id_c p))) \<and>
         (\<forall>v. email p = Some v \<and> v \<noteq> [] \<longrightarrow> (\<exists>rest. emails tieResponse = v # rest)) \<and>
         (\<forall>v. phoneNumber p = Some v \<and> v \<noteq> [] \<longrightarrow>
              (\<exists>rest. phoneNumbers tieResponse = v # rest)) \<and>
         distinct (emails tieResponse) \<and> distinct (phoneNumbers tieResponse) \<and>
         secondaryContactIds tieResponse = map id_c (findByParent tieStoreMerged (id_c p)) \<and>
         sorted (map createdAt (findByParent tieStoreMerged (id_c p))) \<and>
         set (findByParent tieStoreMerged (id_c p)) =
           {r \<in> set (rows tieStoreMerged). linkedId r = Some (id_c p)})"
proof -
  have h: "identifyContact tieStore (Some ''a'') (Some ''p2'') =
             Some (tieStoreMerged, tieResponse)"
    by code_simp
  show ?thesis using h consolidated_response_order [OF h] by blast
qed

text \<open>
  The first email is not the primary's own whenever that is non-null: the primary of
  \<open>blankStore\<close> has the empty string for its email, which is not null, and the response to
  a request with the email \<open>a\<close> and the known phone number lists \<open>a\<close> first.
\<close>

theorem blank_primary_email_counterexample:
  "identifyContact blankStore (Some ''a'') (Some ''123'') =
     Some (blankStoreLinked, blankLinkedResponse) \<and>
   resolvePrimaries blankStore (Some ''a'') (Some ''123'') =
     Some [row 1 (Some '''') (Some ''123'') None Primary 5] \<and>
   findUnique blankStoreLinked (primaryContatctId blankLinkedResponse) =
     Some (row 1 (Some '''') (Some ''123'') None Primary 5) \<and>
   email (row 1 (Some '''') (Some ''123'') None Primary 5) \<noteq> None \<and>
   emails blankLinkedResponse \<noteq> [] \<and>
   Some (hd (emails blankLinkedResponse)) \<noteq>
     email (row 1 (Some '''') (Some ''123'') None Primary 5)"
  by code_simp

subsection \<open>Claim C7: no match\<close>

text \<open>
  C7. On a well-formed store in which no record has the given email (when one is given)
  and no record has the given phone number (when one is given), \<open>identifyContact\<close>
  returns; the store it leaves is the old one with exactly one record appended, a
  primary without \<^verbatim>\<open>linkedId\<close> that holds the given email and phone number; and the
  response is the view of that record alone, with no secondary ids.
\<close>

theorem identify_no_match_creates_primary:
  assumes wf: "wf_store s"
    and nomatch: "\<forall>r \<in> set (rows s). (em \<noteq> None \<longrightarrow> email r \<noteq> em) \<and>
                                  (ph \<noteq> None \<longrightarrow> phoneNumber r \<noteq> ph)"
  shows "identifyContact s em ph =
           Some (s\<lparr> rows := rows s @ [\<lparr> id_c = nextId s, phoneNumber = ph, email = em,
                                        linkedId = None, linkPrecedence = Primary,
                                        createdAt = clock s, updatedAt = clock s,
                                        deletedAt = None \<rparr>],
                   nextId := nextId s + 1 \<rparr>,
                 \<lparr> primaryContatctId = nextId s, emails = pushTruthy em,
                   phoneNumbers = pushTruthy ph, secondaryContactIds = [] \<rparr>)"
proof -
  let ?c = "\<lparr> id_c = nextId s, phoneNumber = ph, email = em, linkedId = None,
              linkPrecedence = Primary, createdAt = clock s, updatedAt = clock s,
              deletedAt = None \<rparr>"
  let ?s1 = "s\<lparr> rows := rows s @ [?c], nextId := nextId s + 1 \<rparr>"
  have "filter (matches em ph) (rows s) = []"
    using nomatch by (auto simp: filter_empty_conv matches_def)
  then have m: "findMatching s em ph = []"
    by (simp add: findMatching_def orderByCreatedAt_def)
  have cr: "create s em ph None Primary = (?s1, ?c)" by (simp add: create_def Let_def)
  have "\<forall>r \<in> set (rows s). linkedId r \<noteq> Some (nextId s)"
    using wf by (fastforce simp: wf_store_def)
  then have "filter (\<lambda>r. linkedId r = Some (nextId s)) (rows ?s1) = []"
    by (auto simp: filter_empty_conv)
  then have "findByParent ?s1 (id_c ?c) = []"
    by (simp add: findByParent_def orderByCreatedAt_def)
  then have "buildResponse ?s1 ?c =
               \<lparr> primaryContatctId = nextId s, emails = pushTruthy em,
                 phoneNumbers = pushTruthy ph, secondaryContactIds = [] \<rparr>"
    by (simp add: buildResponse_def)
  with identifyContact_nomatch[OF m] cr show ?thesis by simp
qed

theorem identify_no_match_creates_primary_witness:
  "wf_store blankStore \<and>
   identifyContact blankStore (Some ''z'') None =
     Some (\<lparr> rows = [row 1 (Some '''') (Some ''123'') None Primary 5,
                      row 2 (Some ''z'') None None Primary 5],
             nextId = 3, clock = 5 \<rparr>,
           \<lparr> primaryContatctId = 2, emails = [''z''], phoneNumbers = [],
             secondaryContactIds = [] \<rparr>)"
proof -
  have h1: "wf_store blankStore" by code_simp
  have h2: "\<forall>r \<in> set (rows blankStore).
              (Some ''z'' \<noteq> None \<longrightarrow> email r \<noteq> Some ''z'') \<and>
              ((None :: string option) \<noteq> None \<longrightarrow> phoneNumber r \<noteq> None)"
    by (simp add: blankStore_def row_def)
  show ?thesis
    using h1 identify_no_match_creates_primary [OF h1 h2]
    by (simp add: blankStore_def row_def)
qed

subsection \<open>Claim C8: root resolution terminates\<close>




subsection \<open>Claim C9: what a call leaves untouched\<close>

text \<open>
  C9. A call of \<open>identifyContact\<close> that returns keeps every record of the table in its
  place, and changes nothing of it but \<^verbatim>\<open>linkedId\<close> and \<^verbatim>\<open>linkPrecedence\<close>: the id,
  the email, the phone number and \<^verbatim>\<open>createdAt\<close> of every record are what they were.
\<close>

theorem identify_frame:
  assumes "identifyContact s em ph = Some (s', resp)"
  shows "length (rows s) \<le> length (rows s') \<and>
         (\<forall>i < length (rows s).
            (\<exists>l p. rows s' ! i = (rows s ! i)\<lparr> linkedId := l, linkPrecedence := p \<rparr>) \<and>
            id_c (rows s' ! i) = id_c (rows s ! i) \<and>
            email (rows s' ! i) = email (rows s ! i) \<and>
            phoneNumber (rows s' ! i) = phoneNumber (rows s ! i) \<and>
            createdAt (rows s' ! i) = createdAt (rows s ! i))"
proof -
  have len: "length (rows s) \<le> length (rows s')"
    using assms
  proof (cases rule: identifyContact_cases)
    case nomatch
    then show ?thesis by (simp add: rows_create)
  next
    case (match canon others)
    then show ?thesis by (simp add: rows_linked rows_merged)
  qed
  have key: "\<exists>l p. rows s' ! i = (rows s ! i)\<lparr> linkedId := l, linkPrecedence := p \<rparr>"
    if "i < length (rows s)" for i
    using assms
  proof (cases rule: identifyContact_cases)
    case nomatch
    have "rows s' ! i = (rows s ! i)\<lparr> linkedId := linkedId (rows s ! i),
                                       linkPrecedence := linkPrecedence (rows s ! i) \<rparr>"
      using that nomatch(2) by (simp add: rows_create nth_append)
    then show ?thesis by blast
  next
    case (match canon others)
    let ?g = "relink (id_c canon) (map id_c others)"
    have "rows s' ! i = ?g (rows s ! i)"
      using that match(3) by (simp add: rows_linked rows_merged nth_append)
    then have "rows s' ! i = (rows s ! i)\<lparr> linkedId := linkedId (?g (rows s ! i)),
                                       linkPrecedence := linkPrecedence (?g (rows s ! i)) \<rparr>"
      using relink_frame[of "id_c canon" "map id_c others" "rows s ! i"] by simp
    then show ?thesis by blast
  qed
  have fields: "id_c (rows s' ! i) = id_c (rows s ! i) \<and>
                email (rows s' ! i) = email (rows s ! i) \<and>
                phoneNumber (rows s' ! i) = phoneNumber (rows s ! i) \<and>
                createdAt (rows s' ! i) = createdAt (rows s ! i)"
    if "i < length (rows s)" for i
  proof -
    from key[OF that] obtain l p
      where "rows s' ! i = (rows s ! i)\<lparr> linkedId := l, linkPrecedence := p \<rparr>" by blast
    from frame_fields[OF this] show ?thesis by simp
  qed
  from len key fields show ?thesis by blast
qed

theorem identify_frame_witness:
  "identifyContact tieStore (Some ''a'') (Some ''p2'') = Some (tieStoreMerged, tieResponse) \<and>
   length (rows tieStore) \<le> length (rows tieStoreMerged) \<and>
   (\<exists>l p. rows tieStoreMerged ! 0 = (rows tieStore ! 0)\<lparr> linkedId := l, linkPrecedence := p \<rparr>) \<and>
   id_c (rows tieStoreMerged ! 0) = id_c (rows tieStore ! 0) \<and>
   email (rows tieStoreMerged ! 0) = email (rows tieStore ! 0) \<and>
   phoneNumber (rows tieStoreMerged ! 0) = phoneNumber (rows tieStore ! 0) \<and>
   createdAt (rows tieStoreMerged ! 0) = createdAt (rows tieStore ! 0)"
proof -
  have h: "identifyContact tieStore (Some ''a'') (Some ''p2'') =
             Some (tieStoreMerged, tieResponse)"
    by code_simp
  have i: "0 < length (rows tieStore)" by (simp add: tieStore_def)
  show ?thesis using h i identify_frame [OF h] by blast
qed

subsection \<open>Claim C10: at most one insertion\<close>

text \<open>
  C10 says that a call inserts exactly one primary when nothing matches, exactly one
  secondary when the request brings new information, and nothing otherwise. The code
  breaks the last part for an empty phone number. On the empty table the request with
  the email \<open>a\<close> and the empty phone number creates the primary of \<open>blankPhoneStore\<close>.
  The same request again matches that primary on the email, both of its values are
  among the values of the group, so it brings no new information, and yet
  \<open>identifyContact\<close> appends a secondary: the set of existing phone numbers is filtered
  by truthiness, while the test of the input is \<^verbatim>\<open>phoneNumber !== null\<close>. No call
  inserts more than one record (\<open>insertions_of_a_call\<close>).
\<close>

theorem empty_phone_inserts_without_new_information:
  "identifyContact emptyStore (Some ''a'') (Some '''') =
     Some (blankPhoneStore,
           \<lparr> primaryContatctId = 1, emails = [''a''], phoneNumbers = [],
             secondaryContactIds = [] \<rparr>) \<and>
   findMatching blankPhoneStore (Some ''a'') (Some '''') =
     [row 1 (Some ''a'') (Some '''') None Primary 5] \<and>
   findGroup blankPhoneStore 1 = [row 1 (Some ''a'') (Some '''') None Primary 5] \<and>
   Some ''a'' \<in> set (map email (findGroup blankPhoneStore 1)) \<and>
   Some '''' \<in> set (map phoneNumber (findGroup blankPhoneStore 1)) \<and>
   \<not> hasNewEmail (findGroup blankPhoneStore 1) (Some ''a'') \<and>
   hasNewPhone (findGroup blankPhoneStore 1) (Some '''') \<and>
   identifyContact blankPhoneStore (Some ''a'') (Some '''') =
     Some (blankPhoneStoreAgain,
           \<lparr> primaryContatctId = 1, emails = [''a''], phoneNumbers = [],
             secondaryContactIds = [2] \<rparr>) \<and>
   length (rows blankPhoneStoreAgain) = length (rows blankPhoneStore) + 1"
  by code_simp

end
